theory Spec2Isabelle
  imports Main
begin

section \<open>Exceptions and stream items\<close>

text \<open>
  Python exceptions are values. \<open>UnhandledBranchError\<close> carries the value it was raised
  with; \<open>Raised\<close> stands for any exception of a collaborator whose class is not part of
  the modelled files (a value provider that cannot resolve, a child interpretation that
  fails).
\<close>

datatype ('v, 'x) py_error =
    UnhandledBranchError 'v
  | TypeError
  | KeyError string
  | ZeroDivisionError
  | Raised 'x

text \<open>
  A stream carries data records and the control signal \<open>Flush\<close>. In the source the
  signal is the class object \<open>Flush\<close> itself, recognised by identity
  (\<open>record is Flush\<close>); here it is a constructor of its own, so that equality with
  \<open>Flush\<close> is that identity test.
\<close>

datatype 'r item = Flush | Record 'r

text \<open>\<open>ProviderContext(item, None)\<close>: the document and the (absent) mappings.\<close>

datatype ('d, 'm) provider_context = ProviderContext (document: 'd) (mappings: "'m option")

section \<open>pipeline/filters.py\<close>

subsection \<open>Filter.process_record\<close>

text \<open>
  \<open>filter_record\<close> is abstract in \<open>Filter\<close>: it is a parameter, a function from the item
  it is called with to an exception or a boolean. The async generator
  \<open>process_record\<close> yields zero or one item; the model returns the list of yielded items,
  or the exception, together with the list of items on which \<open>filter_record\<close> was
  invoked (Python's \<open>or\<close> evaluates its right operand only when the left one is false).
\<close>

definition Filter_process_record ::
  "('r item \<Rightarrow> ('v, 'x) py_error + bool) \<Rightarrow> 'r item
    \<Rightarrow> 'r item list \<times> (('v, 'x) py_error + 'r item list)" where
  "Filter_process_record filter_record rec =
     (if rec = Flush then ([], Inr [rec])
      else (case filter_record rec of
              Inl e \<Rightarrow> ([rec], Inl e)
            | Inr remove \<Rightarrow> ([rec], Inr (if \<not> remove then [rec] else []))))"

text \<open>
  Modelled from the spec: the wiring of steps into a chain (the pipeline runner is not
  among the source files). Section 4.1: each step's output stream feeds the next step,
  outputs keep the order of their inputs, and a step that raises ends the stream.
  \<open>run_step\<close> drives one filter over a finite stream, \<open>run_chain\<close> a list of filters;
  both collect the items handed to any \<open>filter_record\<close>.
\<close>

fun run_step ::
  "('r item \<Rightarrow> ('v, 'x) py_error + bool) \<Rightarrow> 'r item list
    \<Rightarrow> 'r item list \<times> (('v, 'x) py_error + 'r item list)" where
  "run_step f [] = ([], Inr [])"
| "run_step f (x # xs) =
     (case Filter_process_record f x of
        (cs, Inl e) \<Rightarrow> (cs, Inl e)
      | (cs, Inr out) \<Rightarrow>
          (case run_step f xs of
             (cs', Inl e) \<Rightarrow> (cs @ cs', Inl e)
           | (cs', Inr out') \<Rightarrow> (cs @ cs', Inr (out @ out'))))"

fun run_chain ::
  "('r item \<Rightarrow> ('v, 'x) py_error + bool) list \<Rightarrow> 'r item list
    \<Rightarrow> 'r item list \<times> (('v, 'x) py_error + 'r item list)" where
  "run_chain [] xs = ([], Inr xs)"
| "run_chain (f # fs) xs =
     (case run_step f xs of
        (cs, Inl e) \<Rightarrow> (cs, Inl e)
      | (cs, Inr ys) \<Rightarrow> (case run_chain fs ys of (cs', r) \<Rightarrow> (cs @ cs', r)))"

subsection \<open>ValueMatcher\<close>

text \<open>
  \<open>ValueProvider.normalize_single_value\<close> is not among the source files: it is the
  parameter \<open>nsv\<close>, a function of the provider, the context and the normalization
  configuration that returns the normalized value or raises.
\<close>

type_synonym ('vp, 'c, 'n, 'v, 'x) normalizer =
  "'vp \<Rightarrow> 'c \<Rightarrow> 'n \<Rightarrow> ('v, 'x) py_error + 'v"

record ('vp, 'n) ValueMatcher =
  vm_value_provider :: 'vp
  vm_possibilities :: "'vp list"
  vm_normalization :: 'n

text \<open>
  Every call of \<open>normalize_single_value\<close> is recorded with the place it is made from:
  the resolution of the subject value, or the resolution of a possibility inside the
  generator given to \<open>any\<close>.
\<close>

datatype role = Subject | Possibility

type_synonym ('vp, 'n) nsv_call = "role \<times> 'vp \<times> 'n"

text \<open>
  \<open>any(p.normalize_single_value(context, self.normalization) == actual_value for p in
  self.possibilities)\<close>: the generator is consumed from the left and \<open>any\<close> stops at the
  first true comparison; an exception of a provider ends the evaluation.
\<close>

fun any_possibility ::
  "('vp, 'c, 'n, 'v, 'x) normalizer \<Rightarrow> ('vp, 'n) ValueMatcher \<Rightarrow> 'c \<Rightarrow> 'v \<Rightarrow> 'vp list
    \<Rightarrow> ('vp, 'n) nsv_call list \<times> (('v, 'x) py_error + bool)" where
  "any_possibility nsv m context actual_value [] = ([], Inr False)"
| "any_possibility nsv m context actual_value (possibility_provider # rest) =
     (case nsv possibility_provider context (vm_normalization m) of
        Inl e \<Rightarrow> ([(Possibility, possibility_provider, vm_normalization m)], Inl e)
      | Inr v \<Rightarrow>
          if v = actual_value
          then ([(Possibility, possibility_provider, vm_normalization m)], Inr True)
          else (case any_possibility nsv m context actual_value rest of
                  (calls, r) \<Rightarrow>
                    ((Possibility, possibility_provider, vm_normalization m) # calls, r)))"

definition ValueMatcher_does_match ::
  "('vp, 'c, 'n, 'v, 'x) normalizer \<Rightarrow> ('vp, 'n) ValueMatcher \<Rightarrow> 'c
    \<Rightarrow> ('vp, 'n) nsv_call list \<times> (('v, 'x) py_error + bool)" where
  "ValueMatcher_does_match nsv m context =
     (case nsv (vm_value_provider m) context (vm_normalization m) of
        Inl e \<Rightarrow> ([(Subject, vm_value_provider m, vm_normalization m)], Inl e)
      | Inr actual_value \<Rightarrow>
          (case any_possibility nsv m context actual_value (vm_possibilities m) of
             (calls, r) \<Rightarrow>
               ((Subject, vm_value_provider m, vm_normalization m) # calls, r)))"

text \<open>The verdict of a matcher alone, without the record of calls.\<close>

definition does_match_result ::
  "('vp, 'c, 'n, 'v, 'x) normalizer \<Rightarrow> ('vp, 'n) ValueMatcher \<Rightarrow> 'c
    \<Rightarrow> ('v, 'x) py_error + bool" where
  "does_match_result nsv m context = snd (ValueMatcher_does_match nsv m context)"

subsection \<open>ValuesMatchPossibilitiesFilter and ExcludeWhenValuesMatchPossibilities\<close>

text \<open>
  \<open>all(matcher.does_match(context) for matcher in self.value_matchers)\<close>: the matchers
  are asked from the left, \<open>all\<close> stops at the first false verdict, and an exception of a
  matcher ends the evaluation.
\<close>

fun all_match ::
  "('vp, 'c, 'n, 'v, 'x) normalizer \<Rightarrow> 'c \<Rightarrow> ('vp, 'n) ValueMatcher list
    \<Rightarrow> ('v, 'x) py_error + bool" where
  "all_match nsv context [] = Inr True"
| "all_match nsv context (matcher # rest) =
     (case does_match_result nsv matcher context of
        Inl e \<Rightarrow> Inl e
      | Inr b \<Rightarrow> if b then all_match nsv context rest else Inr False)"

definition ValuesMatchPossibilitiesFilter_filter_record ::
  "('vp, ('r item, 'm) provider_context, 'n, 'v, 'x) normalizer
    \<Rightarrow> ('vp, 'n) ValueMatcher list \<Rightarrow> 'r item \<Rightarrow> ('v, 'x) py_error + bool" where
  "ValuesMatchPossibilitiesFilter_filter_record nsv value_matchers itm =
     (let context_from_record = ProviderContext itm None in
      case all_match nsv context_from_record value_matchers of
        Inl e \<Rightarrow> Inl e
      | Inr b \<Rightarrow> Inr (\<not> b))"

text \<open>
  \<open>ExcludeWhenValuesMatchPossibilities\<close> holds a \<open>ValuesMatchPossibilitiesFilter\<close>
  (\<open>inner\<close>, here its list of matchers) and negates what it returns.
\<close>

definition ExcludeWhenValuesMatchPossibilities_filter_record ::
  "('vp, ('r item, 'm) provider_context, 'n, 'v, 'x) normalizer
    \<Rightarrow> ('vp, 'n) ValueMatcher list \<Rightarrow> 'r item \<Rightarrow> ('v, 'x) py_error + bool" where
  "ExcludeWhenValuesMatchPossibilities_filter_record nsv inner rec =
     (case ValuesMatchPossibilitiesFilter_filter_record nsv inner rec of
        Inl e \<Rightarrow> Inl e
      | Inr b \<Rightarrow> Inr (\<not> b))"

text \<open>A matcher list without its \<open>i\<close>-th matcher.\<close>

definition remove_matcher :: "nat \<Rightarrow> 'a list \<Rightarrow> 'a list" where
  "remove_matcher i ms = take i ms @ drop (Suc i) ms"

subsection \<open>RegexMatcher and ValueMatchesRegexFilter\<close>

text \<open>
  A resolved value is a Python string or some other object; \<open>Pattern.match\<close> raises
  \<open>TypeError\<close> on anything that is not a string.
\<close>

datatype 'o py_value = PyStr string | PyOther 'o

record ('vp, 'rx, 'n) RegexMatcher =
  rm_value_provider :: 'vp
  rm_regex :: 'rx
  rm_include :: bool
  rm_normalization :: 'n

text \<open>
  \<open>pattern_match rx s\<close> stands for \<open>rx.match(s) is not None\<close> of Python's \<open>re\<close>
  module, for a compiled pattern \<open>rx\<close>.
\<close>

definition RegexMatcher_should_include ::
  "('vp, 'c, 'n, 'o py_value, 'x) normalizer \<Rightarrow> ('rx \<Rightarrow> string \<Rightarrow> bool)
    \<Rightarrow> ('vp, 'rx, 'n) RegexMatcher \<Rightarrow> 'c \<Rightarrow> ('o py_value, 'x) py_error + bool" where
  "RegexMatcher_should_include nsv pattern_match rm context =
     (case nsv (rm_value_provider rm) context (rm_normalization rm) of
        Inl e \<Rightarrow> Inl e
      | Inr actual_value \<Rightarrow>
          (case actual_value of
             PyOther _ \<Rightarrow> Inl TypeError
           | PyStr s \<Rightarrow>
               (let match = pattern_match (rm_regex rm) s in
                Inr (if rm_include rm then \<not> match else match))))"

definition ValueMatchesRegexFilter_filter_record ::
  "('vp, ('r item, 'm) provider_context, 'n, 'o py_value, 'x) normalizer
    \<Rightarrow> ('rx \<Rightarrow> string \<Rightarrow> bool) \<Rightarrow> ('vp, 'rx, 'n) RegexMatcher \<Rightarrow> 'r item
    \<Rightarrow> ('o py_value, 'x) py_error + bool" where
  "ValueMatchesRegexFilter_filter_record nsv pattern_match regex_matcher itm =
     (let context_from_record = ProviderContext itm None in
      RegexMatcher_should_include nsv pattern_match regex_matcher context_from_record)"

text \<open>
  The regular core of Python's patterns (a literal character, \<open>.\<close>, \<open>|\<close>,
  concatenation, \<open>*\<close>), with the two ways of applying a compiled pattern to a string:
  \<open>re_fullmatch\<close> consumes the whole string, \<open>re_match\<close> succeeds as soon as the
  characters read so far from the start of the string are matched.
\<close>

datatype regex =
    Never
  | Eps
  | Chr char
  | AnyChr
  | Alt regex regex
  | Seq regex regex
  | Star regex

fun nullable :: "regex \<Rightarrow> bool" where
  "nullable Never = False"
| "nullable Eps = True"
| "nullable (Chr c) = False"
| "nullable AnyChr = False"
| "nullable (Alt r s) = (nullable r \<or> nullable s)"
| "nullable (Seq r s) = (nullable r \<and> nullable s)"
| "nullable (Star r) = True"

fun deriv :: "char \<Rightarrow> regex \<Rightarrow> regex" where
  "deriv a Never = Never"
| "deriv a Eps = Never"
| "deriv a (Chr c) = (if a = c then Eps else Never)"
| "deriv a AnyChr = Eps"
| "deriv a (Alt r s) = Alt (deriv a r) (deriv a s)"
| "deriv a (Seq r s) =
     (if nullable r then Alt (Seq (deriv a r) s) (deriv a s) else Seq (deriv a r) s)"
| "deriv a (Star r) = Seq (deriv a r) (Star r)"

fun re_fullmatch :: "regex \<Rightarrow> string \<Rightarrow> bool" where
  "re_fullmatch r [] = nullable r"
| "re_fullmatch r (a # w) = re_fullmatch (deriv a r) w"

fun re_match :: "regex \<Rightarrow> string \<Rightarrow> bool" where
  "re_match r [] = nullable r"
| "re_match r (a # w) = (nullable r \<or> re_match (deriv a r) w)"

section \<open>interpreting/swtich_interpretation.py\<close>

text \<open>
  A \<open>SwitchInterpretation\<close> after construction. \<open>interpretations\<close> is a Python
  dictionary: a list of key and value pairs in insertion order whose keys are distinct
  (\<open>is_dict\<close>), read with \<open>map_of\<close>. The children are \<open>Interpretation\<close> objects of
  any class; their \<open>interpret\<close> is the parameter \<open>interpret_child\<close>, which returns a
  result (with whatever it did to the context) or raises. An \<open>Interpretation\<close> object is
  taken to be truthy, as every Python object is that defines neither \<open>__bool__\<close> nor
  \<open>__len__\<close>, so \<open>if self.default\<close> asks whether a default is present. The switch value
  is taken to be hashable, as dictionary keys are.
\<close>

record ('vp, 'k, 'i, 'n) SwitchInterpretation =
  sw_switch_on :: 'vp
  sw_interpretations :: "('k \<times> 'i) list"
  sw_default :: "'i option"
  sw_normalization :: 'n

definition is_dict :: "('k \<times> 'a) list \<Rightarrow> bool" where
  "is_dict d = distinct (map fst d)"

text \<open>
  \<open>__init__\<close>. \<open>guarantee\<close> is \<open>ValueProvider.garuntee_value_provider\<close> and
  \<open>from_file_arguments\<close> is \<open>Interpretation.from_file_arguments\<close>, which compiles a
  configuration dictionary or raises; neither is among the source files. The dictionary
  comprehension compiles the cases in the order of \<open>cases.items()\<close> and stops at the
  first failure. An absent or empty \<open>default\<close> configuration gives no default; an absent
  \<open>normalization\<close> gives the empty dictionary.
\<close>

fun compile_cases ::
  "('cfg \<Rightarrow> ('v, 'x) py_error + 'i) \<Rightarrow> ('k \<times> 'cfg) list
    \<Rightarrow> ('v, 'x) py_error + ('k \<times> 'i) list" where
  "compile_cases from_file_arguments [] = Inr []"
| "compile_cases from_file_arguments ((field_value, interpretation) # rest) =
     (case from_file_arguments interpretation of
        Inl e \<Rightarrow> Inl e
      | Inr i \<Rightarrow>
          (case compile_cases from_file_arguments rest of
             Inl e \<Rightarrow> Inl e
           | Inr is \<Rightarrow> Inr ((field_value, i) # is)))"

definition SwitchInterpretation_init ::
  "('s \<Rightarrow> 'vp) \<Rightarrow> (('a \<times> 'b) list \<Rightarrow> ('v, 'x) py_error + 'i) \<Rightarrow> 's
    \<Rightarrow> ('k \<times> ('a \<times> 'b) list) list \<Rightarrow> ('a \<times> 'b) list option \<Rightarrow> ('c \<times> 'd) list option
    \<Rightarrow> ('v, 'x) py_error + ('vp, 'k, 'i, ('c \<times> 'd) list) SwitchInterpretation" where
  "SwitchInterpretation_init guarantee from_file_arguments switch_on cases dflt normalization =
     (case compile_cases from_file_arguments cases of
        Inl e \<Rightarrow> Inl e
      | Inr interpretations \<Rightarrow>
          (case (case dflt of
                   None \<Rightarrow> Inr None
                 | Some cfg \<Rightarrow>
                     if cfg = [] then Inr None
                     else (case from_file_arguments cfg of
                             Inl e \<Rightarrow> Inl e
                           | Inr d \<Rightarrow> Inr (Some d))) of
             Inl e \<Rightarrow> Inl e
           | Inr d \<Rightarrow>
               Inr \<lparr>sw_switch_on = guarantee switch_on,
                    sw_interpretations = interpretations,
                    sw_default = d,
                    sw_normalization = (case normalization of None \<Rightarrow> [] | Some n \<Rightarrow> n)\<rparr>))"

text \<open>
  \<open>all_subordinate_components\<close> is a generator: the model returns the list it yields,
  together with the list of children whose \<open>interpret\<close> it invoked.
\<close>

definition SwitchInterpretation_all_subordinate_components ::
  "('vp, 'k, 'i, 'n) SwitchInterpretation \<Rightarrow> 'i list \<times> 'i list" where
  "SwitchInterpretation_all_subordinate_components s =
     ([], map snd (sw_interpretations s) @ (case sw_default s of None \<Rightarrow> [] | Some d \<Rightarrow> [d]))"

text \<open>
  \<open>interpret\<close> returns what the chosen child returns, or raises; the first component
  lists the children whose \<open>interpret\<close> it invoked.
\<close>

definition SwitchInterpretation_interpret ::
  "('vp, 'c, 'n, 'k, 'x) normalizer \<Rightarrow> ('i \<Rightarrow> 'c \<Rightarrow> ('k, 'x) py_error + 'o)
    \<Rightarrow> ('vp, 'k, 'i, 'n) SwitchInterpretation \<Rightarrow> 'c
    \<Rightarrow> 'i list \<times> (('k, 'x) py_error + 'o)" where
  "SwitchInterpretation_interpret nsv interpret_child s context =
     (case nsv (sw_switch_on s) context (sw_normalization s) of
        Inl e \<Rightarrow> ([], Inl e)
      | Inr value_to_look_for \<Rightarrow>
          (case map_of (sw_interpretations s) value_to_look_for of
             None \<Rightarrow>
               (case sw_default s of
                  Some d \<Rightarrow> ([d], interpret_child d context)
                | None \<Rightarrow> ([], Inl (UnhandledBranchError value_to_look_for)))
           | Some i \<Rightarrow> ([i], interpret_child i context)))"

section \<open>Schema expansion\<close>

text \<open>
  Modelled from the spec: the Schema Expansion Coordinator and the tree it walks (module
  \<open>schema\<close> and the \<open>expand_schema\<close> hooks are not among the source files). Sections 3,
  4.5 and 9: the interpretation tree is finite and acyclic; a node is known by its
  identity and may be referenced by several parents; the coordinator performs a
  depth-first walk over the subordinate components of every node, keeps a visited set
  keyed by node identity, calls the schema-contribution hook of a node when it visits it,
  and merges the contributions by union, reporting a schema-consistency error that names
  the conflicting nodes when two of them declare incompatible shapes for one element.

  A node carries its identity, the declarations (element and shape) its hook contributes,
  and its subordinate components. A node referenced by several parents occurs below each
  of them, with the same identity.
\<close>

datatype ('id, 'el, 'sh) inode =
  INode (ident: 'id) (declares: "('el \<times> 'sh) list") (subordinates: "('id, 'el, 'sh) inode list")

fun nodes :: "('id, 'el, 'sh) inode \<Rightarrow> ('id, 'el, 'sh) inode set" where
  "nodes (INode i ds ks) = insert (INode i ds ks) (\<Union>k\<in>set ks. nodes k)"

text \<open>Identity is consistent: one identity, one compiled node.\<close>

definition identity_consistent :: "('id, 'el, 'sh) inode \<Rightarrow> bool" where
  "identity_consistent t = (\<forall>a\<in>nodes t. \<forall>b\<in>nodes t. ident a = ident b \<longrightarrow> a = b)"

text \<open>
  The walk. The state is the list of identities visited so far, in the order of the
  visits, and the declarations collected so far, each with the identity of the node that
  made it. \<open>ord\<close> is the order in which the coordinator takes the subordinate components
  of a node; only components of the node itself are walked.
\<close>

fun walk ::
  "(('id, 'el, 'sh) inode list \<Rightarrow> ('id, 'el, 'sh) inode list) \<Rightarrow> ('id, 'el, 'sh) inode
    \<Rightarrow> 'id list \<times> ('id \<times> 'el \<times> 'sh) list \<Rightarrow> 'id list \<times> ('id \<times> 'el \<times> 'sh) list" where
  "walk ord (INode i ds ks) (visited, schema) =
     (if i \<in> set visited then (visited, schema)
      else fold (walk ord) (filter (\<lambda>k. k \<in> set ks) (ord ks))
             (visited @ [i], schema @ map (\<lambda>(el, sh). (i, el, sh)) ds))"

definition visit_order ::
  "(('id, 'el, 'sh) inode list \<Rightarrow> ('id, 'el, 'sh) inode list) \<Rightarrow> ('id, 'el, 'sh) inode
    \<Rightarrow> 'id list" where
  "visit_order ord root = fst (walk ord root ([], []))"

text \<open>
  Two declarations conflict when they give one element shapes that are not compatible;
  the error names the pairs of nodes in conflict. Without a conflict the expanded schema
  is the union of the declarations.
\<close>

definition conflicts ::
  "('sh \<Rightarrow> 'sh \<Rightarrow> bool) \<Rightarrow> ('id \<times> 'el \<times> 'sh) list \<Rightarrow> ('id \<times> 'id) set" where
  "conflicts compatible decls =
     set [(i, j). (i, el, sh) \<leftarrow> decls, (j, el', sh') \<leftarrow> decls, el = el' \<and> \<not> compatible sh sh']"

datatype ('id, 'el, 'sh) schema_result =
    SchemaConsistencyError "('id \<times> 'id) set"
  | ExpandedSchema "('el \<times> 'sh) set"

definition expand_schema ::
  "('sh \<Rightarrow> 'sh \<Rightarrow> bool) \<Rightarrow> (('id, 'el, 'sh) inode list \<Rightarrow> ('id, 'el, 'sh) inode list)
    \<Rightarrow> ('id, 'el, 'sh) inode \<Rightarrow> ('id, 'el, 'sh) schema_result" where
  "expand_schema compatible ord root =
     (let decls = snd (walk ord root ([], [])) in
      if conflicts compatible decls = {} then ExpandedSchema (set (map snd decls))
      else SchemaConsistencyError (conflicts compatible decls))"

text \<open>An order of traversal takes every subordinate component of a node.\<close>

definition traversal_order ::
  "(('id, 'el, 'sh) inode list \<Rightarrow> ('id, 'el, 'sh) inode list) \<Rightarrow> bool" where
  "traversal_order ord = (\<forall>ks. set (ord ks) = set ks)"

text \<open>
  What the proofs say of a state of the walk of a tree \<open>t\<close>: the declarations collected
  are those of the nodes visited (\<open>decls_of\<close>), and every node visited has all the nodes
  below it visited, unless it is one of the nodes \<open>A\<close> whose walk is still under way
  (\<open>closed_under\<close>).
\<close>

definition decls_of :: "('id, 'el, 'sh) inode \<Rightarrow> 'id set \<Rightarrow> ('id \<times> 'el \<times> 'sh) set" where
  "decls_of t V =
     {(ident m, el, sh) | m el sh. m \<in> nodes t \<and> ident m \<in> V \<and> (el, sh) \<in> set (declares m)}"

definition closed_under :: "('id, 'el, 'sh) inode \<Rightarrow> 'id set \<Rightarrow> 'id set \<Rightarrow> bool" where
  "closed_under t A V =
     (\<forall>m\<in>nodes t. ident m \<in> V \<longrightarrow> ident m \<in> A \<or> ident ` nodes m \<subseteq> V)"

definition walk_inv ::
  "('id, 'el, 'sh) inode \<Rightarrow> 'id set \<Rightarrow> 'id list \<times> ('id \<times> 'el \<times> 'sh) list \<Rightarrow> bool" where
  "walk_inv t A st =
     (closed_under t A (set (fst st)) \<and> set (snd st) = decls_of t (set (fst st)))"

section \<open>project/pipeline_progress_reporter.py\<close>

text \<open>
  The dataclass with its fields \<open>reporting_frequency\<close> and \<open>callback\<close>; the logger is
  the list of records it is given, each the message and the index of \<open>extra\<close> (the
  memory reading of \<open>extra\<close> is a measurement of the running process and is left out).
  A callback returns or raises; calling \<open>None\<close> raises \<open>TypeError\<close>.
\<close>

record ('r, 'v, 'x) PipelineProgressReporter =
  reporting_frequency :: int
  callback :: "(int \<Rightarrow> 'r \<Rightarrow> ('v, 'x) py_error + unit) option"

text \<open>
  The reporter of \<open>PipelineProgressReporter()\<close>: the default of \<open>reporting_frequency\<close>
  is 1000 and the default factory of \<open>callback\<close> is \<open>lambda: None\<close>.
\<close>

definition default_reporter :: "('r, 'v, 'x) PipelineProgressReporter" where
  "default_reporter = \<lparr>reporting_frequency = 1000, callback = (\<lambda>u::unit. None) ()\<rparr>"

definition report ::
  "('r, 'v, 'x) PipelineProgressReporter \<Rightarrow> int \<Rightarrow> 'r
    \<Rightarrow> (string \<times> int) list \<times> (('v, 'x) py_error + unit)" where
  "report self index rec =
     (let logged = [(''Records Processed'', index)] in
      case callback self of
        None \<Rightarrow> (logged, Inl TypeError)
      | Some f \<Rightarrow> (logged, f index rec))"

text \<open>
  \<open>execute_with_reporting\<close> over the records the pipeline yields, numbered from
  \<open>index\<close> as \<open>enumerate_async\<close> numbers them from 0. Python's \<open>%\<close> raises
  \<open>ZeroDivisionError\<close> on a zero divisor and otherwise takes the sign of the divisor, as
  \<open>mod\<close> on \<open>int\<close> does.
\<close>

fun execute_from ::
  "('r, 'v, 'x) PipelineProgressReporter \<Rightarrow> int \<Rightarrow> 'r list
    \<Rightarrow> (string \<times> int) list \<times> (('v, 'x) py_error + unit)" where
  "execute_from self index [] = ([], Inr ())"
| "execute_from self index (rec # rest) =
     (if reporting_frequency self = 0 then ([], Inl ZeroDivisionError)
      else if index mod reporting_frequency self = 0
      then (case report self index rec of
              (logged, Inl e) \<Rightarrow> (logged, Inl e)
            | (logged, Inr u) \<Rightarrow>
                (case execute_from self (index + 1) rest of
                   (logged', r) \<Rightarrow> (logged @ logged', r)))
      else execute_from self (index + 1) rest)"

definition execute_with_reporting ::
  "('r, 'v, 'x) PipelineProgressReporter \<Rightarrow> 'r list
    \<Rightarrow> (string \<times> int) list \<times> (('v, 'x) py_error + unit)" where
  "execute_with_reporting self pipeline_run = execute_from self 0 pipeline_run"

section \<open>project/pipeline_definition.py\<close>

text \<open>
  File data is a string or a dictionary from field names to YAML values. A
  \<open>PipelineDefinition\<close> has the five fields of the dataclass. \<open>pathlib.Path\<close> is a
  parameter: \<open>mk_path\<close> builds a path from a string, \<open>str_of\<close> is \<open>str\<close> of a path and
  \<open>stem\<close> its \<open>stem\<close>. Dictionaries are lists of pairs in insertion order.
\<close>

datatype 'a yaml =
    YStr string
  | YBool bool
  | YAnnotations "(string \<times> 'a) list"
  | YTargets "string set"

datatype 'a file_data = DataStr string | DataDict "(string \<times> 'a yaml) list"

record ('p, 'a) PipelineDefinition =
  pd_name :: string
  pd_file_path :: 'p
  pd_targets :: "string set"
  pd_exclude_inherited_targets :: bool
  pd_annotations :: "(string \<times> 'a) list"

definition get_default_name :: "('p \<Rightarrow> string) \<Rightarrow> 'p \<Rightarrow> string" where
  "get_default_name stem file_path = stem file_path"

text \<open>\<open>d[k] = v\<close> on a dictionary, and \<open>{**a, **b}\<close>.\<close>

fun dict_set :: "('k \<times> 'v) list \<Rightarrow> 'k \<Rightarrow> 'v \<Rightarrow> ('k \<times> 'v) list" where
  "dict_set [] k v = [(k, v)]"
| "dict_set ((k', v') # d) k v = (if k' = k then (k, v) # d else (k', v') # dict_set d k v)"

definition dict_merge :: "('k \<times> 'v) list \<Rightarrow> ('k \<times> 'v) list \<Rightarrow> ('k \<times> 'v) list" where
  "dict_merge a b = fold (\<lambda>(k, v) d. dict_set d k v) b a"

definition to_file_data ::
  "('p \<Rightarrow> string) \<Rightarrow> ('p \<Rightarrow> string) \<Rightarrow> ('p, 'a) PipelineDefinition \<Rightarrow> bool \<Rightarrow> 'a file_data" where
  "to_file_data stem str_of self verbose =
     (let using_default_name = (pd_name self = stem (pd_file_path self)) in
      if using_default_name \<and> pd_annotations self = [] \<and> \<not> verbose
      then DataStr (str_of (pd_file_path self))
      else
        (let result = [(''path'', YStr (str_of (pd_file_path self)))];
             result = (if \<not> using_default_name \<or> verbose
                       then dict_set result ''name'' (YStr (pd_name self)) else result);
             result = (if pd_annotations self \<noteq> [] \<or> verbose
                       then dict_set result ''annotations'' (YAnnotations (pd_annotations self))
                       else result);
             result = (if pd_targets self \<noteq> {} \<or> verbose
                       then dict_set result ''targets'' (YTargets (pd_targets self)) else result)
         in DataDict result))"

text \<open>
  \<open>from_file_data\<close>. \<open>data.pop("path")\<close> raises \<open>KeyError\<close> when the key is absent; the
  other fields have defaults. A value of another type than \<open>describe_yaml_schema\<close>
  allows for its field is outside the model and gives \<open>TypeError\<close>.
\<close>

definition from_file_data ::
  "('p \<Rightarrow> string) \<Rightarrow> (string \<Rightarrow> 'p) \<Rightarrow> 'a file_data \<Rightarrow> (string \<times> 'a) list
    \<Rightarrow> ('v, 'x) py_error + ('p, 'a) PipelineDefinition" where
  "from_file_data stem mk_path data parent_annotations =
     (let data = (case data of DataStr s \<Rightarrow> [(''path'', YStr s)] | DataDict d \<Rightarrow> d) in
      case map_of data ''path'' of
        None \<Rightarrow> Inl (KeyError ''path'')
      | Some (YStr s) \<Rightarrow>
          (let file_path = mk_path s in
           case (case map_of data ''name'' of
                   None \<Rightarrow> Some (get_default_name stem file_path)
                 | Some (YStr n) \<Rightarrow> Some n
                 | Some _ \<Rightarrow> None,
                 case map_of data ''exclude_inherited_targets'' of
                   None \<Rightarrow> Some False
                 | Some (YBool b) \<Rightarrow> Some b
                 | Some _ \<Rightarrow> None,
                 case map_of data ''annotations'' of
                   None \<Rightarrow> Some []
                 | Some (YAnnotations a) \<Rightarrow> Some a
                 | Some _ \<Rightarrow> None,
                 case map_of data ''targets'' of
                   None \<Rightarrow> Some {}
                 | Some (YTargets t) \<Rightarrow> Some t
                 | Some _ \<Rightarrow> None) of
             (Some name, Some exclude_targets, Some annotations, Some targets) \<Rightarrow>
               Inr \<lparr>pd_name = name,
                    pd_file_path = file_path,
                    pd_targets = targets,
                    pd_exclude_inherited_targets = exclude_targets,
                    pd_annotations = dict_merge parent_annotations annotations\<rparr>
           | _ \<Rightarrow> Inl TypeError)
      | Some _ \<Rightarrow> Inl TypeError)"

section \<open>Concrete instances\<close>

text \<open>
  Inputs on which the definitions are evaluated. A record is a list of fields and string
  values; a provider reads a field of the record or is a literal; the normalization is a
  number of characters to which a resolved string is cut. A provider that reads a field
  the record lacks, or that is given \<open>Flush\<close>, raises.
\<close>

datatype example_provider = Field string | Static string

definition example_nsv ::
  "(example_provider, ((string \<times> string) list item, unit) provider_context, nat, string, unit) normalizer" where
  "example_nsv p context n =
     (case p of
        Static s \<Rightarrow> Inr (take n s)
      | Field f \<Rightarrow>
          (case document context of
             Flush \<Rightarrow> Inl (Raised ())
           | Record r \<Rightarrow> (case map_of r f of None \<Rightarrow> Inl (Raised ()) | Some s \<Rightarrow> Inr (take n s))))"

definition example_record :: "(string \<times> string) list" where
  "example_record = [(''type'', ''person''), (''lang'', ''en'')]"

definition type_matcher :: "(example_provider, nat) ValueMatcher" where
  "type_matcher = \<lparr>vm_value_provider = Field ''type'',
      vm_possibilities = [Static ''org'', Static ''personal'', Static ''pet''], vm_normalization = 6\<rparr>"

definition lang_matcher :: "(example_provider, nat) ValueMatcher" where
  "lang_matcher = \<lparr>vm_value_provider = Field ''lang'',
      vm_possibilities = [Static ''en''], vm_normalization = 2\<rparr>"

definition example_stream :: "(string \<times> string) list item list" where
  "example_stream = [Record example_record, Flush, Record [(''type'', ''org'')], Flush]"

definition example_py_nsv ::
  "(example_provider, ((string \<times> string) list item, unit) provider_context, nat,
    unit py_value, unit) normalizer" where
  "example_py_nsv p context n =
     (case example_nsv p context n of Inl e \<Rightarrow> Inl (Raised ()) | Inr s \<Rightarrow> Inr (PyStr s))"

definition example_regex_matcher :: "(example_provider, regex, nat) RegexMatcher" where
  "example_regex_matcher =
     \<lparr>rm_value_provider = Field ''type'',
      rm_regex = Seq (Chr CHR ''p'') (Chr CHR ''e''),
      rm_include = True,
      rm_normalization = 6\<rparr>"

definition example_switch :: "(example_provider, string, string, nat) SwitchInterpretation" where
  "example_switch =
     \<lparr>sw_switch_on = Field ''type'',
      sw_interpretations = [(''a'', ''X''), (''b'', ''Y'')],
      sw_default = Some ''D'',
      sw_normalization = 1\<rparr>"

definition example_interpret_child ::
  "string \<Rightarrow> ((string \<times> string) list item, unit) provider_context
    \<Rightarrow> (string, unit) py_error + string \<times> (string \<times> string) list item" where
  "example_interpret_child i context = Inr (i, document context)"

definition example_from_file_arguments ::
  "(string \<times> string) list \<Rightarrow> (string, unit) py_error + string" where
  "example_from_file_arguments cfg =
     (case map_of cfg ''type'' of None \<Rightarrow> Inl (Raised ()) | Some t \<Rightarrow> Inr t)"

definition example_stem :: "string \<Rightarrow> string" where
  "example_stem p = takeWhile (\<lambda>c. c \<noteq> CHR ''.'') p"

definition example_definition :: "(string, string) PipelineDefinition" where
  "example_definition =
     \<lparr>pd_name = ''load'', pd_file_path = ''load.yaml'', pd_targets = {''prod''},
      pd_exclude_inherited_targets = True, pd_annotations = []\<rparr>"

definition grandchild :: "(nat, string, string) inode" where
  "grandchild = INode 3 [(''name'', ''string'')] []"

definition diamond :: "(nat, string, string) inode" where
  "diamond =
     INode 0 []
       [INode 1 [(''age'', ''int'')] [grandchild],
        INode 2 [(''city'', ''string'')] [grandchild]]"

section \<open>Properties of the filters\<close>

lemmas ex_defs = example_nsv_def example_record_def type_matcher_def lang_matcher_def
  does_match_result_def ValueMatcher_does_match_def ValuesMatchPossibilitiesFilter_filter_record_def
  ExcludeWhenValuesMatchPossibilities_filter_record_def Filter_process_record_def remove_matcher_def

lemma all_match_True_iff:
  "all_match nsv c ms = Inr True \<longleftrightarrow> (\<forall>m\<in>set ms. does_match_result nsv m c = Inr True)"
  by (induction ms) (auto split: sum.splits)

lemma all_match_False_iff:
  "all_match nsv c ms = Inr False \<longleftrightarrow>
     (\<exists>i<length ms. does_match_result nsv (ms ! i) c = Inr False \<and>
        (\<forall>j<i. does_match_result nsv (ms ! j) c = Inr True))"
proof (induction ms)
  case Nil
  show ?case by simp
next
  case (Cons m ms)
  show ?case
  proof (cases "does_match_result nsv m c")
    case (Inl e)
    have "\<not> (\<exists>i<length (m # ms). does_match_result nsv ((m # ms) ! i) c = Inr False \<and>
        (\<forall>j<i. does_match_result nsv ((m # ms) ! j) c = Inr True))"
    proof
      assume "\<exists>i<length (m # ms). does_match_result nsv ((m # ms) ! i) c = Inr False \<and>
        (\<forall>j<i. does_match_result nsv ((m # ms) ! j) c = Inr True)"
      then obtain i where i: "does_match_result nsv ((m # ms) ! i) c = Inr False"
        "\<forall>j<i. does_match_result nsv ((m # ms) ! j) c = Inr True" by blast
      show False
      proof (cases i)
        case 0
        with i Inl show False by simp
      next
        case (Suc k)
        with i(2) have "does_match_result nsv ((m # ms) ! 0) c = Inr True" by blast
        with Inl show False by simp
      qed
    qed
    with Inl show ?thesis by simp
  next
    case (Inr b)
    show ?thesis
    proof (cases b)
      case False
      with Inr have "does_match_result nsv ((m # ms) ! 0) c = Inr False" by simp
      then have "\<exists>i<length (m # ms). does_match_result nsv ((m # ms) ! i) c = Inr False \<and>
        (\<forall>j<i. does_match_result nsv ((m # ms) ! j) c = Inr True)"
        by (intro exI[of _ 0]) simp
      with Inr False show ?thesis by simp
    next
      case True
      have "(\<exists>i<length (m # ms). does_match_result nsv ((m # ms) ! i) c = Inr False \<and>
        (\<forall>j<i. does_match_result nsv ((m # ms) ! j) c = Inr True)) \<longleftrightarrow>
        (\<exists>i<length ms. does_match_result nsv (ms ! i) c = Inr False \<and>
        (\<forall>j<i. does_match_result nsv (ms ! j) c = Inr True))" (is "?L \<longleftrightarrow> ?R")
      proof
        assume ?L
        then obtain i where i: "i < length (m # ms)"
          "does_match_result nsv ((m # ms) ! i) c = Inr False"
          "\<forall>j<i. does_match_result nsv ((m # ms) ! j) c = Inr True" by blast
        from i(2) Inr True obtain k where k: "i = Suc k" by (cases i) auto
        have "\<forall>j<k. does_match_result nsv (ms ! j) c = Inr True"
        proof (intro allI impI)
          fix j assume "j < k"
          then have "Suc j < i" using k by simp
          with i(3) have "does_match_result nsv ((m # ms) ! Suc j) c = Inr True" by blast
          then show "does_match_result nsv (ms ! j) c = Inr True" by simp
        qed
        with i(1,2) k show ?R by (intro exI[of _ k]) simp
      next
        assume ?R
        then obtain i where i: "i < length ms"
          "does_match_result nsv (ms ! i) c = Inr False"
          "\<forall>j<i. does_match_result nsv (ms ! j) c = Inr True" by blast
        have "\<forall>j<Suc i. does_match_result nsv ((m # ms) ! j) c = Inr True"
        proof (intro allI impI)
          fix j assume j: "j < Suc i"
          show "does_match_result nsv ((m # ms) ! j) c = Inr True"
          proof (cases j)
            case 0 with Inr True show ?thesis by simp
          next
            case (Suc l) with j i(3) show ?thesis by simp
          qed
        qed
        with i(1,2) show ?L by (intro exI[of _ "Suc i"]) simp
      qed
      with Inr True Cons.IH show ?thesis by simp
    qed
  qed
qed

lemma all_match_total:
  "(\<forall>m\<in>set ms. \<exists>b. does_match_result nsv m c = Inr b) \<Longrightarrow>
   all_match nsv c ms = Inr (\<forall>m\<in>set ms. does_match_result nsv m c = Inr True)"
  by (induction ms) (auto split: sum.splits)

lemma set_remove_matcher: "set (remove_matcher i ms) \<subseteq> set ms"
  unfolding remove_matcher_def using set_take_subset set_drop_subset by fastforce

lemma process_record_keeps_iff:
  "snd (Filter_process_record f (Record r)) = Inr [Record r] \<longleftrightarrow> f (Record r) = Inr False"
  by (auto simp: Filter_process_record_def split: sum.splits)

lemma process_record_drops_iff:
  "snd (Filter_process_record f (Record r)) = Inr [] \<longleftrightarrow> f (Record r) = Inr True"
  by (auto simp: Filter_process_record_def split: sum.splits)

lemma vmpf_False_iff:
  "ValuesMatchPossibilitiesFilter_filter_record nsv ms x = Inr False \<longleftrightarrow>
   (\<forall>m\<in>set ms. does_match_result nsv m (ProviderContext x None) = Inr True)"
  by (auto simp: ValuesMatchPossibilitiesFilter_filter_record_def all_match_True_iff[symmetric]
      split: sum.splits)

lemma vmpf_True_iff:
  "ValuesMatchPossibilitiesFilter_filter_record nsv ms x = Inr True \<longleftrightarrow>
   all_match nsv (ProviderContext x None) ms = Inr False"
  by (auto simp: ValuesMatchPossibilitiesFilter_filter_record_def split: sum.splits)

lemma any_possibility_calls:
  "\<exists>k\<le>length ps. fst (any_possibility nsv m c a ps) =
       map (\<lambda>p. (Possibility, p, vm_normalization m)) (take k ps)"
proof (induction ps)
  case Nil
  show ?case by simp
next
  case (Cons p ps)
  then obtain k where k: "k \<le> length ps"
    "fst (any_possibility nsv m c a ps) = map (\<lambda>p. (Possibility, p, vm_normalization m)) (take k ps)"
    by blast
  show ?case
  proof (cases "nsv p c (vm_normalization m)")
    case (Inl e)
    then show ?thesis by (intro exI[of _ 1]) simp
  next
    case (Inr v)
    show ?thesis
    proof (cases "v = a")
      case True
      with Inr show ?thesis by (intro exI[of _ 1]) simp
    next
      case False
      with Inr k show ?thesis by (intro exI[of _ "Suc k"]) (simp add: case_prod_beta)
    qed
  qed
qed

lemma any_possibility_True_iff:
  "snd (any_possibility nsv m c a ps) = Inr True \<longleftrightarrow>
     (\<exists>pre p post. ps = pre @ p # post \<and> nsv p c (vm_normalization m) = Inr a \<and>
        (\<forall>q\<in>set pre. \<exists>v. nsv q c (vm_normalization m) = Inr v \<and> v \<noteq> a))"
proof (induction ps)
  case Nil
  show ?case by simp
next
  case (Cons p ps)
  show ?case
  proof (cases "nsv p c (vm_normalization m)")
    case (Inl e)
    have "\<not> (\<exists>pre p' post. p # ps = pre @ p' # post \<and> nsv p' c (vm_normalization m) = Inr a \<and>
        (\<forall>q\<in>set pre. \<exists>v. nsv q c (vm_normalization m) = Inr v \<and> v \<noteq> a))"
      using Inl by (auto simp: Cons_eq_append_conv)
    with Inl show ?thesis by simp
  next
    case (Inr v)
    show ?thesis
    proof (cases "v = a")
      case True
      with Inr have "p # ps = [] @ p # ps \<and> nsv p c (vm_normalization m) = Inr a \<and>
        (\<forall>q\<in>set []. \<exists>v. nsv q c (vm_normalization m) = Inr v \<and> v \<noteq> a)" by simp
      then have "\<exists>pre p' post. p # ps = pre @ p' # post \<and> nsv p' c (vm_normalization m) = Inr a \<and>
        (\<forall>q\<in>set pre. \<exists>v. nsv q c (vm_normalization m) = Inr v \<and> v \<noteq> a)" by blast
      with Inr True show ?thesis by simp
    next
      case False
      have "(\<exists>pre p' post. p # ps = pre @ p' # post \<and> nsv p' c (vm_normalization m) = Inr a \<and>
        (\<forall>q\<in>set pre. \<exists>v. nsv q c (vm_normalization m) = Inr v \<and> v \<noteq> a)) \<longleftrightarrow>
        (\<exists>pre p' post. ps = pre @ p' # post \<and> nsv p' c (vm_normalization m) = Inr a \<and>
        (\<forall>q\<in>set pre. \<exists>v. nsv q c (vm_normalization m) = Inr v \<and> v \<noteq> a))" (is "?L \<longleftrightarrow> ?R")
      proof
        assume ?L
        then obtain pre p' post where h: "p # ps = pre @ p' # post"
          "nsv p' c (vm_normalization m) = Inr a"
          "\<forall>q\<in>set pre. \<exists>v. nsv q c (vm_normalization m) = Inr v \<and> v \<noteq> a" by blast
        from h(1,2) Inr False obtain pre' where pre': "pre = p # pre'" "ps = pre' @ p' # post"
          by (cases pre) auto
        with h(2,3) show ?R by auto
      next
        assume ?R
        then obtain pre p' post where h: "ps = pre @ p' # post"
          "nsv p' c (vm_normalization m) = Inr a"
          "\<forall>q\<in>set pre. \<exists>v. nsv q c (vm_normalization m) = Inr v \<and> v \<noteq> a" by blast
        have "p # ps = (p # pre) @ p' # post" using h(1) by simp
        moreover have "\<forall>q\<in>set (p # pre). \<exists>v. nsv q c (vm_normalization m) = Inr v \<and> v \<noteq> a"
          using h(3) Inr False by simp
        ultimately show ?L using h(2) by blast
      qed
      with Inr False Cons.IH show ?thesis by (simp add: case_prod_beta)
    qed
  qed
qed

lemma any_possibility_total:
  "(\<forall>p\<in>set ps. \<exists>v. nsv p c (vm_normalization m) = Inr v) \<Longrightarrow>
   snd (any_possibility nsv m c a ps) = Inr (\<exists>p\<in>set ps. nsv p c (vm_normalization m) = Inr a)"
  by (induction ps) (auto simp: case_prod_beta split: sum.splits)

subsection \<open>ValuesMatchPossibilitiesFilter\<close>

text \<open>
  C2. A data record given to a \<open>ValuesMatchPossibilitiesFilter\<close> is passed downstream
  exactly when every matcher of the filter returns true on it. \<open>filter_record\<close> returns
  true (drop) exactly when some matcher returns false and every matcher before it has
  returned true; when no matcher raises on the record, that is exactly when some matcher
  returns false. A record that is passed is still passed after any one matcher has been
  removed from the list.
\<close>

theorem values_match_possibilities_survives_iff_all_match:
  "(snd (Filter_process_record (ValuesMatchPossibilitiesFilter_filter_record nsv M) (Record r))
        = Inr [Record r]
      \<longleftrightarrow> (\<forall>m\<in>set M. does_match_result nsv m (ProviderContext (Record r) None) = Inr True))
   \<and> (ValuesMatchPossibilitiesFilter_filter_record nsv M (Record r) = Inr True
      \<longleftrightarrow> (\<exists>i<length M.
             does_match_result nsv (M ! i) (ProviderContext (Record r) None) = Inr False
           \<and> (\<forall>j<i. does_match_result nsv (M ! j) (ProviderContext (Record r) None) = Inr True)))
   \<and> ((\<forall>m\<in>set M. \<exists>b. does_match_result nsv m (ProviderContext (Record r) None) = Inr b)
      \<longrightarrow> (ValuesMatchPossibilitiesFilter_filter_record nsv M (Record r) = Inr True
           \<longleftrightarrow> (\<exists>m\<in>set M. does_match_result nsv m (ProviderContext (Record r) None) = Inr False)))
   \<and> (snd (Filter_process_record (ValuesMatchPossibilitiesFilter_filter_record nsv M) (Record r))
        = Inr [Record r]
      \<longrightarrow> snd (Filter_process_record
                (ValuesMatchPossibilitiesFilter_filter_record nsv (remove_matcher i M)) (Record r))
          = Inr [Record r])"
proof (intro conjI impI)
  show "snd (Filter_process_record (ValuesMatchPossibilitiesFilter_filter_record nsv M) (Record r))
        = Inr [Record r]
      \<longleftrightarrow> (\<forall>m\<in>set M. does_match_result nsv m (ProviderContext (Record r) None) = Inr True)"
    by (simp only: process_record_keeps_iff vmpf_False_iff)
next
  show "ValuesMatchPossibilitiesFilter_filter_record nsv M (Record r) = Inr True
      \<longleftrightarrow> (\<exists>i<length M.
             does_match_result nsv (M ! i) (ProviderContext (Record r) None) = Inr False
           \<and> (\<forall>j<i. does_match_result nsv (M ! j) (ProviderContext (Record r) None) = Inr True))"
    by (simp only: vmpf_True_iff all_match_False_iff)
next
  assume total: "\<forall>m\<in>set M. \<exists>b. does_match_result nsv m (ProviderContext (Record r) None) = Inr b"
  have "all_match nsv (ProviderContext (Record r) None) M
      = Inr (\<forall>m\<in>set M. does_match_result nsv m (ProviderContext (Record r) None) = Inr True)"
    by (rule all_match_total[OF total])
  then have "ValuesMatchPossibilitiesFilter_filter_record nsv M (Record r) = Inr True
      \<longleftrightarrow> (\<exists>m\<in>set M. does_match_result nsv m (ProviderContext (Record r) None) \<noteq> Inr True)"
    by (simp add: vmpf_True_iff)
  also have "\<dots> \<longleftrightarrow> (\<exists>m\<in>set M. does_match_result nsv m (ProviderContext (Record r) None) = Inr False)"
    using total by (metis (full_types) sum.inject(2))
  finally show "ValuesMatchPossibilitiesFilter_filter_record nsv M (Record r) = Inr True
      \<longleftrightarrow> (\<exists>m\<in>set M. does_match_result nsv m (ProviderContext (Record r) None) = Inr False)" .
next
  assume "snd (Filter_process_record (ValuesMatchPossibilitiesFilter_filter_record nsv M) (Record r))
        = Inr [Record r]"
  then have "\<forall>m\<in>set M. does_match_result nsv m (ProviderContext (Record r) None) = Inr True"
    by (simp only: process_record_keeps_iff vmpf_False_iff)
  then have "\<forall>m\<in>set (remove_matcher i M).
      does_match_result nsv m (ProviderContext (Record r) None) = Inr True"
    using set_remove_matcher[of i M] by blast
  then show "snd (Filter_process_record
                (ValuesMatchPossibilitiesFilter_filter_record nsv (remove_matcher i M)) (Record r))
          = Inr [Record r]"
    by (simp only: process_record_keeps_iff vmpf_False_iff)
qed

text \<open>
  The example record matches both matchers: it is passed, and it is passed without the
  first matcher.
\<close>

theorem values_match_possibilities_witness:
  "snd (Filter_process_record
          (ValuesMatchPossibilitiesFilter_filter_record example_nsv [type_matcher, lang_matcher])
          (Record example_record)) = Inr [Record example_record]
   \<and> snd (Filter_process_record
          (ValuesMatchPossibilitiesFilter_filter_record example_nsv
             (remove_matcher 0 [type_matcher, lang_matcher]))
          (Record example_record)) = Inr [Record example_record]
   \<and> does_match_result example_nsv type_matcher (ProviderContext (Record example_record) None) = Inr True
   \<and> does_match_result example_nsv lang_matcher (ProviderContext (Record example_record) None) = Inr True"
  using values_match_possibilities_survives_iff_all_match
          [of example_nsv "[type_matcher, lang_matcher]" example_record 0]
  by (simp add: ex_defs)

subsection \<open>ExcludeWhenValuesMatchPossibilities\<close>

text \<open>
  C3. On every item, \<open>ExcludeWhenValuesMatchPossibilities.filter_record\<close> returns the
  negation of what the \<open>ValuesMatchPossibilitiesFilter\<close> over the same matchers returns,
  and raises exactly when that one raises; it returns true (drop) exactly when every
  matcher returns true. So a data record is dropped by the one exactly when it is passed
  by the other, and passed by the one exactly when it is dropped by the other.
\<close>

theorem exclude_is_complement:
  "(ExcludeWhenValuesMatchPossibilities_filter_record nsv M x = Inr b
      \<longleftrightarrow> ValuesMatchPossibilitiesFilter_filter_record nsv M x = Inr (\<not> b))
   \<and> (ExcludeWhenValuesMatchPossibilities_filter_record nsv M x = Inl e
      \<longleftrightarrow> ValuesMatchPossibilitiesFilter_filter_record nsv M x = Inl e)
   \<and> (ExcludeWhenValuesMatchPossibilities_filter_record nsv M x = Inr True
      \<longleftrightarrow> (\<forall>m\<in>set M. does_match_result nsv m (ProviderContext x None) = Inr True))
   \<and> (snd (Filter_process_record (ExcludeWhenValuesMatchPossibilities_filter_record nsv M) (Record r))
        = Inr []
      \<longleftrightarrow> snd (Filter_process_record (ValuesMatchPossibilitiesFilter_filter_record nsv M) (Record r))
        = Inr [Record r])
   \<and> (snd (Filter_process_record (ExcludeWhenValuesMatchPossibilities_filter_record nsv M) (Record r))
        = Inr [Record r]
      \<longleftrightarrow> snd (Filter_process_record (ValuesMatchPossibilitiesFilter_filter_record nsv M) (Record r))
        = Inr [])"
proof -
  have neg: "\<And>y c. ExcludeWhenValuesMatchPossibilities_filter_record nsv M y = Inr c
      \<longleftrightarrow> ValuesMatchPossibilitiesFilter_filter_record nsv M y = Inr (\<not> c)"
    by (auto simp: ExcludeWhenValuesMatchPossibilities_filter_record_def split: sum.splits)
  have err: "ExcludeWhenValuesMatchPossibilities_filter_record nsv M x = Inl e
      \<longleftrightarrow> ValuesMatchPossibilitiesFilter_filter_record nsv M x = Inl e"
    by (auto simp: ExcludeWhenValuesMatchPossibilities_filter_record_def split: sum.splits)
  have all: "ExcludeWhenValuesMatchPossibilities_filter_record nsv M x = Inr True
      \<longleftrightarrow> (\<forall>m\<in>set M. does_match_result nsv m (ProviderContext x None) = Inr True)"
    by (simp add: neg vmpf_False_iff)
  show ?thesis
    using neg[of x b] err all
    by (simp add: process_record_keeps_iff process_record_drops_iff neg)
qed

text \<open>
  The example record, which matches both matchers, is dropped by the excluding filter.
\<close>

theorem exclude_is_complement_witness:
  "ExcludeWhenValuesMatchPossibilities_filter_record example_nsv [type_matcher, lang_matcher]
      (Record example_record) = Inr True
   \<and> ValuesMatchPossibilitiesFilter_filter_record example_nsv [type_matcher, lang_matcher]
      (Record example_record) = Inr False
   \<and> snd (Filter_process_record
        (ExcludeWhenValuesMatchPossibilities_filter_record example_nsv [type_matcher, lang_matcher])
        (Record example_record)) = Inr []"
  using exclude_is_complement
          [of example_nsv "[type_matcher, lang_matcher]" "Record example_record" True _ example_record]
  by (simp add: ex_defs)

subsection \<open>Flush\<close>

lemma process_record_calls: "Flush \<notin> set (fst (Filter_process_record f x))"
  by (auto simp: Filter_process_record_def split: sum.splits)

lemma process_record_flushes:
  "snd (Filter_process_record f x) = Inr out \<Longrightarrow>
   filter (\<lambda>i. i = Flush) out = filter (\<lambda>i. i = Flush) [x]"
  by (auto simp: Filter_process_record_def split: sum.splits if_splits)

lemma run_step_calls: "Flush \<notin> set (fst (run_step f xs))"
proof (induction xs)
  case Nil
  show ?case by simp
next
  case (Cons x xs)
  have "Flush \<notin> set (fst (Filter_process_record f x))" by (rule process_record_calls)
  with Cons show ?case
    by (cases "Filter_process_record f x"; cases "run_step f xs")
       (auto split: sum.splits)
qed

lemma run_step_flushes:
  "snd (run_step f xs) = Inr ys \<Longrightarrow> filter (\<lambda>i. i = Flush) ys = filter (\<lambda>i. i = Flush) xs"
proof (induction xs arbitrary: ys)
  case Nil
  then show ?case by simp
next
  case (Cons x xs)
  obtain cs r where pr: "Filter_process_record f x = (cs, r)" by (cases "Filter_process_record f x")
  obtain cs' r' where rs: "run_step f xs = (cs', r')" by (cases "run_step f xs")
  from Cons.prems pr rs obtain out out' where o: "r = Inr out" "r' = Inr out'" "ys = out @ out'"
    by (auto split: sum.splits)
  have "filter (\<lambda>i. i = Flush) out = filter (\<lambda>i. i = Flush) [x]"
    using process_record_flushes[of f x out] pr o(1) by simp
  moreover have "filter (\<lambda>i. i = Flush) out' = filter (\<lambda>i. i = Flush) xs"
    using Cons.IH[of out'] rs o(2) by simp
  ultimately show ?case using o(3) by simp
qed

lemma run_chain_calls: "Flush \<notin> set (fst (run_chain fs xs))"
proof (induction fs arbitrary: xs)
  case Nil
  show ?case by simp
next
  case (Cons f fs)
  obtain cs r where rs: "run_step f xs = (cs, r)" by (cases "run_step f xs")
  have cs: "Flush \<notin> set cs" using run_step_calls[of f xs] rs by simp
  show ?case
  proof (cases r)
    case (Inl e)
    with rs cs show ?thesis by simp
  next
    case (Inr ys)
    with rs cs Cons.IH[of ys] show ?thesis by (simp add: case_prod_beta)
  qed
qed

lemma run_chain_flushes:
  "snd (run_chain fs xs) = Inr ys \<Longrightarrow> filter (\<lambda>i. i = Flush) ys = filter (\<lambda>i. i = Flush) xs"
proof (induction fs arbitrary: xs)
  case Nil
  then show ?case by simp
next
  case (Cons f fs)
  obtain cs r where rs: "run_step f xs = (cs, r)" by (cases "run_step f xs")
  from Cons.prems rs obtain zs where zs: "r = Inr zs" "snd (run_chain fs zs) = Inr ys"
    by (auto simp: case_prod_beta split: sum.splits)
  have "filter (\<lambda>i. i = Flush) zs = filter (\<lambda>i. i = Flush) xs"
    using run_step_flushes[of f xs zs] rs zs(1) by simp
  with Cons.IH[OF zs(2)] show ?case by simp
qed

lemma run_chain_single_flush: "run_chain fs [Flush] = ([], Inr [Flush])"
  by (induction fs) (simp_all add: Filter_process_record_def)

text \<open>
  C4. \<open>Filter.process_record\<close> given \<open>Flush\<close> yields \<open>Flush\<close> alone and does not
  invoke \<open>filter_record\<close>; on no item does it invoke \<open>filter_record\<close> on \<open>Flush\<close>.
  The same holds of a chain of filters: a \<open>Flush\<close> that enters comes out unchanged
  with no predicate invoked, no predicate of the chain is ever invoked on \<open>Flush\<close>, and
  when the chain does not raise the \<open>Flush\<close> signals that come out are those that went
  in.
\<close>

theorem flush_passes_unexamined:
  "Filter_process_record f Flush = ([], Inr [Flush])
   \<and> Flush \<notin> set (fst (Filter_process_record f x))
   \<and> run_chain fs [Flush] = ([], Inr [Flush])
   \<and> Flush \<notin> set (fst (run_chain fs xs))
   \<and> (\<forall>ys. snd (run_chain fs xs) = Inr ys
         \<longrightarrow> filter (\<lambda>i. i = Flush) ys = filter (\<lambda>i. i = Flush) xs)"
  using process_record_calls[of f x] run_chain_single_flush[of fs] run_chain_calls[of fs xs]
    run_chain_flushes[of fs xs]
  by (simp add: Filter_process_record_def)

text \<open>
  A stream with two records and two \<open>Flush\<close> signals through two chains: one raises on
  the second record, the other drops both records and lets both signals through.
\<close>

theorem flush_passes_unexamined_witness:
  "run_chain [ValuesMatchPossibilitiesFilter_filter_record example_nsv [type_matcher],
              ExcludeWhenValuesMatchPossibilities_filter_record example_nsv [lang_matcher]]
      example_stream
     = ([Record example_record, Record [(''type'', ''org'')], Record example_record,
         Record [(''type'', ''org'')]],
        Inl (Raised ()))
   \<and> run_chain [ValuesMatchPossibilitiesFilter_filter_record example_nsv [type_matcher],
              ExcludeWhenValuesMatchPossibilities_filter_record example_nsv [type_matcher]]
      example_stream
     = ([Record example_record, Record [(''type'', ''org'')], Record example_record,
         Record [(''type'', ''org'')]],
        Inr [Flush, Flush])
   \<and> filter (\<lambda>i. i = Flush) [Flush, Flush :: (string \<times> string) list item]
       = filter (\<lambda>i. i = Flush) example_stream"
  using flush_passes_unexamined
     [of "ValuesMatchPossibilitiesFilter_filter_record example_nsv [type_matcher]" Flush
         "[ValuesMatchPossibilitiesFilter_filter_record example_nsv [type_matcher],
              ExcludeWhenValuesMatchPossibilities_filter_record example_nsv [type_matcher]]"
         example_stream]
  by (simp add: ex_defs example_stream_def)

subsection \<open>ValueMatcher.does_match\<close>

text \<open>
  C6. The calls of \<open>normalize_single_value\<close> made by \<open>does_match\<close> are one resolution
  of the subject, first, and then resolutions of possibilities, from the left, up to some
  point of the list; exactly one call resolves the subject; every call is given the
  normalization of the matcher. \<open>does_match\<close> returns true exactly when the subject
  resolves to a value and some possibility resolves to that value, every possibility
  before it having resolved to another value. When no provider raises, it returns whether
  some possibility resolves to what the subject resolves to.
\<close>

theorem does_match_resolves_once_and_tests_membership:
  "(\<exists>k\<le>length (vm_possibilities m).
       fst (ValueMatcher_does_match nsv m c)
         = (Subject, vm_value_provider m, vm_normalization m)
           # map (\<lambda>p. (Possibility, p, vm_normalization m)) (take k (vm_possibilities m)))
   \<and> length (filter (\<lambda>call. fst call = Subject) (fst (ValueMatcher_does_match nsv m c))) = 1
   \<and> (\<forall>call\<in>set (fst (ValueMatcher_does_match nsv m c)). snd (snd call) = vm_normalization m)
   \<and> (snd (ValueMatcher_does_match nsv m c) = Inr True
       \<longleftrightarrow> (\<exists>actual pre p post.
              nsv (vm_value_provider m) c (vm_normalization m) = Inr actual
            \<and> vm_possibilities m = pre @ p # post
            \<and> nsv p c (vm_normalization m) = Inr actual
            \<and> (\<forall>q\<in>set pre. \<exists>v. nsv q c (vm_normalization m) = Inr v \<and> v \<noteq> actual)))
   \<and> ((\<forall>p\<in>set (vm_value_provider m # vm_possibilities m).
          \<exists>v. nsv p c (vm_normalization m) = Inr v)
       \<longrightarrow> snd (ValueMatcher_does_match nsv m c)
           = Inr (\<exists>p\<in>set (vm_possibilities m).
                    nsv p c (vm_normalization m)
                      = nsv (vm_value_provider m) c (vm_normalization m)))"
proof -
  let ?vp = "vm_value_provider m" and ?n = "vm_normalization m" and ?ps = "vm_possibilities m"
  have calls: "\<exists>k\<le>length ?ps. fst (ValueMatcher_does_match nsv m c)
         = (Subject, ?vp, ?n) # map (\<lambda>p. (Possibility, p, ?n)) (take k ?ps)"
  proof (cases "nsv ?vp c ?n")
    case (Inl e)
    then show ?thesis by (intro exI[of _ 0]) (simp add: ValueMatcher_does_match_def)
  next
    case (Inr a)
    from any_possibility_calls[of ?ps nsv m c a] obtain k where
      "k \<le> length ?ps" "fst (any_possibility nsv m c a ?ps) = map (\<lambda>p. (Possibility, p, ?n)) (take k ?ps)"
      by blast
    with Inr show ?thesis
      by (intro exI[of _ k]) (simp add: ValueMatcher_does_match_def case_prod_beta)
  qed
  then obtain k where k: "fst (ValueMatcher_does_match nsv m c)
         = (Subject, ?vp, ?n) # map (\<lambda>p. (Possibility, p, ?n)) (take k ?ps)" by blast
  have once: "length (filter (\<lambda>call. fst call = Subject) (fst (ValueMatcher_does_match nsv m c))) = 1"
    unfolding k by (simp add: filter_map comp_def)
  have norm: "\<forall>call\<in>set (fst (ValueMatcher_does_match nsv m c)). snd (snd call) = ?n"
    unfolding k by auto
  have iff: "snd (ValueMatcher_does_match nsv m c) = Inr True
       \<longleftrightarrow> (\<exists>actual pre p post.
              nsv ?vp c ?n = Inr actual \<and> ?ps = pre @ p # post \<and> nsv p c ?n = Inr actual
            \<and> (\<forall>q\<in>set pre. \<exists>v. nsv q c ?n = Inr v \<and> v \<noteq> actual))"
  proof (cases "nsv ?vp c ?n")
    case (Inl e)
    then show ?thesis by (simp add: ValueMatcher_does_match_def)
  next
    case (Inr a)
    then have "snd (ValueMatcher_does_match nsv m c) = snd (any_possibility nsv m c a ?ps)"
      by (simp add: ValueMatcher_does_match_def case_prod_beta)
    with Inr show ?thesis by (simp add: any_possibility_True_iff)
  qed
  have total: "(\<forall>p\<in>set (?vp # ?ps). \<exists>v. nsv p c ?n = Inr v)
       \<longrightarrow> snd (ValueMatcher_does_match nsv m c)
           = Inr (\<exists>p\<in>set ?ps. nsv p c ?n = nsv ?vp c ?n)"
  proof
    assume h: "\<forall>p\<in>set (?vp # ?ps). \<exists>v. nsv p c ?n = Inr v"
    then obtain a where a: "nsv ?vp c ?n = Inr a" by auto
    from h have "\<forall>p\<in>set ?ps. \<exists>v. nsv p c ?n = Inr v" by simp
    then have "snd (any_possibility nsv m c a ?ps) = Inr (\<exists>p\<in>set ?ps. nsv p c ?n = Inr a)"
      by (rule any_possibility_total)
    with a show "snd (ValueMatcher_does_match nsv m c) = Inr (\<exists>p\<in>set ?ps. nsv p c ?n = nsv ?vp c ?n)"
      by (simp add: ValueMatcher_does_match_def case_prod_beta)
  qed
  from calls once norm iff total show ?thesis by blast
qed

text \<open>
  The example matcher resolves the subject once and stops at the second possibility,
  which, cut to six characters, equals the subject.
\<close>

theorem does_match_witness:
  "ValueMatcher_does_match example_nsv type_matcher (ProviderContext (Record example_record) None)
     = ([(Subject, Field ''type'', 6), (Possibility, Static ''org'', 6),
         (Possibility, Static ''personal'', 6)], Inr True)
   \<and> example_nsv (Static ''personal'') (ProviderContext (Record example_record) None) 6
     = example_nsv (Field ''type'') (ProviderContext (Record example_record) None) 6"
  using does_match_resolves_once_and_tests_membership
          [of type_matcher example_nsv "ProviderContext (Record example_record) None"]
  by (simp add: ex_defs)


section \<open>Properties of RegexMatcher\<close>

lemma re_match_iff_prefix:
  "re_match r s \<longleftrightarrow> (\<exists>n\<le>length s. re_fullmatch r (take n s))"
proof (induction s arbitrary: r)
  case Nil
  show ?case by simp
next
  case (Cons a w)
  have "(\<exists>n\<le>length (a # w). re_fullmatch r (take n (a # w)))
      \<longleftrightarrow> nullable r \<or> (\<exists>k\<le>length w. re_fullmatch (deriv a r) (take k w))" (is "?L \<longleftrightarrow> ?R")
  proof
    assume ?L
    then obtain n where n: "n \<le> length (a # w)" "re_fullmatch r (take n (a # w))" by blast
    show ?R
    proof (cases n)
      case 0
      with n show ?thesis by simp
    next
      case (Suc k)
      with n have "k \<le> length w" "re_fullmatch (deriv a r) (take k w)" by simp_all
      then show ?thesis by blast
    qed
  next
    assume ?R
    then show ?L
    proof
      assume "nullable r"
      then have "re_fullmatch r (take 0 (a # w))" by simp
      then show ?L by blast
    next
      assume "\<exists>k\<le>length w. re_fullmatch (deriv a r) (take k w)"
      then obtain k where "k \<le> length w" "re_fullmatch (deriv a r) (take k w)" by blast
      then have "Suc k \<le> length (a # w)" "re_fullmatch r (take (Suc k) (a # w))" by simp_all
      then show ?L by blast
    qed
  qed
  with Cons.IH[of "deriv a r"] show ?case by simp
qed

text \<open>
  C5. With \<open>include\<close> true, \<open>should_include\<close> returns false exactly when the value
  resolves to a string that the compiled pattern matches; with \<open>include\<close> false, it
  returns true exactly then. This holds for whatever \<open>Pattern.match\<close> computes; for the
  patterns modelled here, to match is to match some initial part of the string in full,
  not the whole string.
\<close>

theorem should_include_polarity:
  "(rm_include rm \<longrightarrow>
      (RegexMatcher_should_include nsv pattern_match rm c = Inr False
        \<longleftrightarrow> (\<exists>s. nsv (rm_value_provider rm) c (rm_normalization rm) = Inr (PyStr s)
                \<and> pattern_match (rm_regex rm) s)))
   \<and> (\<not> rm_include rm \<longrightarrow>
      (RegexMatcher_should_include nsv pattern_match rm c = Inr True
        \<longleftrightarrow> (\<exists>s. nsv (rm_value_provider rm) c (rm_normalization rm) = Inr (PyStr s)
                \<and> pattern_match (rm_regex rm) s)))
   \<and> (rm_include rm' \<longrightarrow>
      (RegexMatcher_should_include nsv' re_match rm' c' = Inr False
        \<longleftrightarrow> (\<exists>s n. nsv' (rm_value_provider rm') c' (rm_normalization rm') = Inr (PyStr s)
                \<and> n \<le> length s \<and> re_fullmatch (rm_regex rm') (take n s))))
   \<and> (\<not> rm_include rm' \<longrightarrow>
      (RegexMatcher_should_include nsv' re_match rm' c' = Inr True
        \<longleftrightarrow> (\<exists>s n. nsv' (rm_value_provider rm') c' (rm_normalization rm') = Inr (PyStr s)
                \<and> n \<le> length s \<and> re_fullmatch (rm_regex rm') (take n s))))"
proof -
  have gen: "\<And>nsv pm rm c.
      RegexMatcher_should_include nsv pm rm c = Inr (\<not> rm_include rm)
        \<longleftrightarrow> (\<exists>s. nsv (rm_value_provider rm) c (rm_normalization rm) = Inr (PyStr s)
                \<and> pm (rm_regex rm) s)"
    by (auto simp: RegexMatcher_should_include_def Let_def split: sum.splits py_value.splits if_splits)
  show ?thesis
    using gen[of nsv pattern_match rm c] gen[of nsv' re_match rm' c']
    by (auto simp: re_match_iff_prefix)
qed

text \<open>
  The pattern \<open>pe\<close> matches \<open>person\<close> from the start and does not match it in full:
  with \<open>include\<close> true \<open>should_include\<close> returns false, with \<open>include\<close> false true.
\<close>

theorem should_include_witness:
  "RegexMatcher_should_include example_py_nsv re_match example_regex_matcher
      (ProviderContext (Record example_record) None) = Inr False
   \<and> example_py_nsv (Field ''type'') (ProviderContext (Record example_record) None) 6
      = Inr (PyStr ''person'')
   \<and> re_match (Seq (Chr CHR ''p'') (Chr CHR ''e'')) ''person''
   \<and> \<not> re_fullmatch (Seq (Chr CHR ''p'') (Chr CHR ''e'')) ''person''
   \<and> RegexMatcher_should_include example_py_nsv re_match
        (example_regex_matcher\<lparr>rm_include := False\<rparr>)
        (ProviderContext (Record example_record) None) = Inr True"
  using should_include_polarity
     [of example_regex_matcher example_py_nsv re_match
         "ProviderContext (Record example_record) None"
         "example_regex_matcher\<lparr>rm_include := False\<rparr>" example_py_nsv
         "ProviderContext (Record example_record) None"]
  by (simp add: example_py_nsv_def example_regex_matcher_def example_nsv_def example_record_def
        RegexMatcher_should_include_def)


section \<open>Properties of SwitchInterpretation\<close>

lemma compile_cases_Inr:
  "compile_cases f cs = Inr cis \<Longrightarrow>
     map fst cis = map fst cs \<and> map (\<lambda>ki. Inr (snd ki)) cis = map (\<lambda>kc. f (snd kc)) cs"
proof (induction cs arbitrary: cis)
  case Nil
  then show ?case by simp
next
  case (Cons kc cs)
  obtain k cfg where kc: "kc = (k, cfg)" by (cases kc)
  from Cons.prems kc obtain i rest where h: "f cfg = Inr i" "compile_cases f cs = Inr rest"
    "cis = (k, i) # rest"
    by (auto split: sum.splits)
  from Cons.IH[OF h(2)] h(1,3) kc show ?case by simp
qed

lemma dict_lookup:
  "is_dict d \<Longrightarrow> (map_of d k = Some v) = ((k, v) \<in> set d)"
  by (simp add: is_dict_def)

lemma dict_lookup_None: "(map_of d k = None) = (k \<notin> fst ` set d)"
  by (simp add: map_of_eq_None_iff)

text \<open>
  C1. \<open>interpret\<close> resolves the switch value with the normalization of the switch.
  When the value is a key of the cases, it invokes \<open>interpret\<close> of that case's child and
  returns its result; when it is not a key and a default is present, it does so with the
  default; when it is not a key and there is no default, it raises
  \<open>UnhandledBranchError\<close> with the resolved value and invokes no child. When the
  resolution raises, so does \<open>interpret\<close>.
\<close>

theorem switch_interpret_dispatch:
  "(nsv (sw_switch_on s) c (sw_normalization s) = Inr v
      \<and> is_dict (sw_interpretations s) \<and> (v, i) \<in> set (sw_interpretations s)
     \<longrightarrow> SwitchInterpretation_interpret nsv interpret_child s c = ([i], interpret_child i c))
   \<and> (nsv (sw_switch_on s) c (sw_normalization s) = Inr v
      \<and> v \<notin> fst ` set (sw_interpretations s) \<and> sw_default s = Some d
     \<longrightarrow> SwitchInterpretation_interpret nsv interpret_child s c = ([d], interpret_child d c))
   \<and> (nsv (sw_switch_on s) c (sw_normalization s) = Inr v
      \<and> v \<notin> fst ` set (sw_interpretations s) \<and> sw_default s = None
     \<longrightarrow> SwitchInterpretation_interpret nsv interpret_child s c
           = ([], Inl (UnhandledBranchError v)))
   \<and> (nsv (sw_switch_on s) c (sw_normalization s) = Inl e
     \<longrightarrow> SwitchInterpretation_interpret nsv interpret_child s c = ([], Inl e))"
proof (intro conjI impI)
  assume "nsv (sw_switch_on s) c (sw_normalization s) = Inr v
      \<and> is_dict (sw_interpretations s) \<and> (v, i) \<in> set (sw_interpretations s)"
  then have "nsv (sw_switch_on s) c (sw_normalization s) = Inr v"
    "map_of (sw_interpretations s) v = Some i"
    by (simp_all add: dict_lookup)
  then show "SwitchInterpretation_interpret nsv interpret_child s c = ([i], interpret_child i c)"
    by (simp add: SwitchInterpretation_interpret_def)
next
  assume "nsv (sw_switch_on s) c (sw_normalization s) = Inr v
      \<and> v \<notin> fst ` set (sw_interpretations s) \<and> sw_default s = Some d"
  then have "nsv (sw_switch_on s) c (sw_normalization s) = Inr v"
    "map_of (sw_interpretations s) v = None" "sw_default s = Some d"
    by (simp_all add: dict_lookup_None)
  then show "SwitchInterpretation_interpret nsv interpret_child s c = ([d], interpret_child d c)"
    by (simp add: SwitchInterpretation_interpret_def)
next
  assume "nsv (sw_switch_on s) c (sw_normalization s) = Inr v
      \<and> v \<notin> fst ` set (sw_interpretations s) \<and> sw_default s = None"
  then have "nsv (sw_switch_on s) c (sw_normalization s) = Inr v"
    "map_of (sw_interpretations s) v = None" "sw_default s = None"
    by (simp_all add: dict_lookup_None)
  then show "SwitchInterpretation_interpret nsv interpret_child s c
           = ([], Inl (UnhandledBranchError v))"
    by (simp add: SwitchInterpretation_interpret_def)
next
  assume "nsv (sw_switch_on s) c (sw_normalization s) = Inl e"
  then show "SwitchInterpretation_interpret nsv interpret_child s c = ([], Inl e)"
    by (simp add: SwitchInterpretation_interpret_def)
qed

text \<open>
  Cases \<open>a\<close> and \<open>b\<close> with default \<open>D\<close>, the switch value cut to one character: a
  record resolving to \<open>a\<close> is given to \<open>X\<close>, one resolving to \<open>c\<close> to \<open>D\<close>; without
  the default the latter raises \<open>UnhandledBranchError\<close> with \<open>c\<close>.
\<close>

theorem switch_interpret_witness:
  "SwitchInterpretation_interpret example_nsv example_interpret_child example_switch
      (ProviderContext (Record [(''type'', ''apple'')]) None)
     = ([''X''], Inr (''X'', Record [(''type'', ''apple'')]))
   \<and> SwitchInterpretation_interpret example_nsv example_interpret_child example_switch
      (ProviderContext (Record [(''type'', ''cherry'')]) None)
     = ([''D''], Inr (''D'', Record [(''type'', ''cherry'')]))
   \<and> SwitchInterpretation_interpret example_nsv example_interpret_child
      (example_switch\<lparr>sw_default := None\<rparr>)
      (ProviderContext (Record [(''type'', ''cherry'')]) None)
     = ([], Inl (UnhandledBranchError ''c''))
   \<and> SwitchInterpretation_interpret example_nsv example_interpret_child example_switch
      (ProviderContext (Record [(''kind'', ''apple'')]) None)
     = ([], Inl (Raised ()))"
  using
    switch_interpret_dispatch
      [of example_nsv example_switch "ProviderContext (Record [(''type'', ''apple'')]) None"
          "''a''" "''X''" example_interpret_child "''D''" "Raised ()"]
    switch_interpret_dispatch
      [of example_nsv example_switch "ProviderContext (Record [(''type'', ''cherry'')]) None"
          "''c''" "''X''" example_interpret_child "''D''" "Raised ()"]
    switch_interpret_dispatch
      [of example_nsv "example_switch\<lparr>sw_default := None\<rparr>"
          "ProviderContext (Record [(''type'', ''cherry'')]) None"
          "''c''" "''X''" example_interpret_child "''D''" "Raised ()"]
    switch_interpret_dispatch
      [of example_nsv example_switch "ProviderContext (Record [(''kind'', ''apple'')]) None"
          "''c''" "''X''" example_interpret_child "''D''" "Raised ()"]
  by (simp add: example_switch_def example_nsv_def example_interpret_child_def is_dict_def)

text \<open>
  C7. \<open>all_subordinate_components\<close> invokes \<open>interpret\<close> on no child and yields the
  children of the cases in the order of the dictionary, then the default when there is
  one: one component for each case key. For a switch built by \<open>__init__\<close> these are the
  compiled configurations of the cases, in the order of \<open>cases\<close>, followed by the
  compiled default configuration when one is given and not empty.
\<close>

theorem all_subordinate_components_yields_children:
  "fst (SwitchInterpretation_all_subordinate_components s) = []
   \<and> snd (SwitchInterpretation_all_subordinate_components s)
       = map snd (sw_interpretations s) @ (case sw_default s of None \<Rightarrow> [] | Some d \<Rightarrow> [d])
   \<and> length (snd (SwitchInterpretation_all_subordinate_components s))
       = length (map fst (sw_interpretations s)) + (if sw_default s = None then 0 else 1)
   \<and> (SwitchInterpretation_init guarantee from_file_arguments switch_on cases dflt normalization
        = Inr s'
      \<longrightarrow> map fst (sw_interpretations s') = map fst cases
        \<and> map Inr (snd (SwitchInterpretation_all_subordinate_components s'))
           = map (\<lambda>kc. from_file_arguments (snd kc)) cases
             @ (case dflt of
                  None \<Rightarrow> []
                | Some cfg \<Rightarrow> if cfg = [] then [] else [from_file_arguments cfg]))"
proof (intro conjI impI)
  show "fst (SwitchInterpretation_all_subordinate_components s) = []"
    by (simp add: SwitchInterpretation_all_subordinate_components_def)
  show "snd (SwitchInterpretation_all_subordinate_components s)
       = map snd (sw_interpretations s) @ (case sw_default s of None \<Rightarrow> [] | Some d \<Rightarrow> [d])"
    by (simp add: SwitchInterpretation_all_subordinate_components_def)
  show "length (snd (SwitchInterpretation_all_subordinate_components s))
       = length (map fst (sw_interpretations s)) + (if sw_default s = None then 0 else 1)"
    by (simp add: SwitchInterpretation_all_subordinate_components_def split: option.splits)
next
  assume init: "SwitchInterpretation_init guarantee from_file_arguments switch_on cases dflt
      normalization = Inr s'"
  then obtain cis where cis: "compile_cases from_file_arguments cases = Inr cis"
    "sw_interpretations s' = cis"
    by (auto simp: SwitchInterpretation_init_def split: sum.splits option.splits if_splits)
  from compile_cases_Inr[OF cis(1)] cis(2)
  have keys: "map fst (sw_interpretations s') = map fst cases"
    and kids: "map (\<lambda>ki. Inr (snd ki)) (sw_interpretations s')
        = map (\<lambda>kc. from_file_arguments (snd kc)) cases"
    by simp_all
  have kids': "map Inr (map snd (sw_interpretations s'))
        = map (\<lambda>kc. from_file_arguments (snd kc)) cases"
    using kids by (simp add: comp_def)
  have dflt: "map Inr (case sw_default s' of None \<Rightarrow> [] | Some d \<Rightarrow> [d])
      = (case dflt of None \<Rightarrow> [] | Some cfg \<Rightarrow> if cfg = [] then [] else [from_file_arguments cfg])"
    using init
    by (auto simp: SwitchInterpretation_init_def split: sum.splits option.splits if_splits)
  show "map fst (sw_interpretations s') = map fst cases" by (rule keys)
  show "map Inr (snd (SwitchInterpretation_all_subordinate_components s'))
           = map (\<lambda>kc. from_file_arguments (snd kc)) cases
             @ (case dflt of
                  None \<Rightarrow> []
                | Some cfg \<Rightarrow> if cfg = [] then [] else [from_file_arguments cfg])"
    using kids' dflt by (simp add: SwitchInterpretation_all_subordinate_components_def)
qed

text \<open>
  Two cases and a default: the switch is built and yields \<open>X\<close>, \<open>Y\<close>, \<open>D\<close>.
\<close>

theorem all_subordinate_components_witness:
  "SwitchInterpretation_init Field example_from_file_arguments ''type''
      [(''a'', [(''type'', ''X'')]), (''b'', [(''type'', ''Y'')])] (Some [(''type'', ''D'')])
      (None :: (string \<times> string) list option)
     = Inr \<lparr>sw_switch_on = Field ''type'',
            sw_interpretations = [(''a'', ''X''), (''b'', ''Y'')],
            sw_default = Some ''D'',
            sw_normalization = []\<rparr>
   \<and> SwitchInterpretation_all_subordinate_components
        \<lparr>sw_switch_on = Field ''type'',
            sw_interpretations = [(''a'', ''X''), (''b'', ''Y'')],
            sw_default = Some ''D'',
            sw_normalization = ([] :: (string \<times> string) list)\<rparr>
     = ([], [''X'', ''Y'', ''D''])"
  using all_subordinate_components_yields_children
     [of "\<lparr>sw_switch_on = Field ''type'',
            sw_interpretations = [(''a'', ''X''), (''b'', ''Y'')],
            sw_default = Some ''D'',
            sw_normalization = ([] :: (string \<times> string) list)\<rparr>"
         Field example_from_file_arguments "''type''"
         "[(''a'', [(''type'', ''X'')]), (''b'', [(''type'', ''Y'')])]"
         "Some [(''type'', ''D'')]" "None :: (string \<times> string) list option"
         "\<lparr>sw_switch_on = Field ''type'',
            sw_interpretations = [(''a'', ''X''), (''b'', ''Y'')],
            sw_default = Some ''D'',
            sw_normalization = ([] :: (string \<times> string) list)\<rparr>"]
  by (simp add: SwitchInterpretation_init_def example_from_file_arguments_def
        SwitchInterpretation_all_subordinate_components_def)


section \<open>Properties of the schema expansion\<close>

lemma self_in_nodes: "n \<in> nodes n"
  by (cases n) simp

lemma nodes_trans: "m \<in> nodes n \<Longrightarrow> nodes m \<subseteq> nodes n"
proof (induction n)
  case (INode i ds ks)
  show ?case
  proof (cases "m = INode i ds ks")
    case True
    then show ?thesis by simp
  next
    case False
    with INode.prems obtain k where k: "k \<in> set ks" "m \<in> nodes k" by auto
    from INode.IH[OF k] k(1) show ?thesis by auto
  qed
qed

lemma nodes_size: "m \<in> nodes n \<Longrightarrow> size m \<le> size n"
proof (induction n)
  case (INode i ds ks)
  show ?case
  proof (cases "m = INode i ds ks")
    case True
    then show ?thesis by simp
  next
    case False
    with INode.prems obtain k where k: "k \<in> set ks" "m \<in> nodes k" by auto
    from INode.IH[OF k] have "size m \<le> size k" .
    also have "size k \<le> size_list size ks" using k(1) by (simp add: size_list_estimation')
    finally show ?thesis by simp
  qed
qed

lemma parent_not_below_child:
  "k \<in> set ks \<Longrightarrow> INode i ds ks \<notin> nodes k"
proof
  assume k: "k \<in> set ks" and below: "INode i ds ks \<in> nodes k"
  from below have "size (INode i ds ks) \<le> size k" by (rule nodes_size)
  moreover have "size k \<le> size_list size ks" using k by (simp add: size_list_estimation')
  ultimately show False by simp
qed

lemma ids_node:
  "ident ` nodes (INode i ds ks) = insert i (\<Union>k\<in>set ks. ident ` nodes k)"
  by auto

lemma decls_of_insert:
  assumes "identity_consistent t" "INode i ds ks \<in> nodes t"
  shows "decls_of t (insert i V) = decls_of t V \<union> set (map (\<lambda>(el, sh). (i, el, sh)) ds)"
proof -
  have same: "\<And>m. m \<in> nodes t \<Longrightarrow> ident m = i \<Longrightarrow> m = INode i ds ks"
    using assms unfolding identity_consistent_def by (metis inode.sel(1))
  show ?thesis
  proof (intro set_eqI iffI)
    fix x assume "x \<in> decls_of t (insert i V)"
    then obtain m el sh where m: "x = (ident m, el, sh)" "m \<in> nodes t" "ident m \<in> insert i V"
      "(el, sh) \<in> set (declares m)" unfolding decls_of_def by blast
    show "x \<in> decls_of t V \<union> set (map (\<lambda>(el, sh). (i, el, sh)) ds)"
    proof (cases "ident m = i")
      case True
      with same[OF m(2)] have "m = INode i ds ks" by simp
      with m(1,4) show ?thesis by force
    next
      case False
      with m show ?thesis unfolding decls_of_def by blast
    qed
  next
    fix x assume "x \<in> decls_of t V \<union> set (map (\<lambda>(el, sh). (i, el, sh)) ds)"
    then show "x \<in> decls_of t (insert i V)"
    proof
      assume "x \<in> decls_of t V"
      then show ?thesis unfolding decls_of_def by blast
    next
      assume "x \<in> set (map (\<lambda>(el, sh). (i, el, sh)) ds)"
      then obtain el sh where "x = (i, el, sh)" "(el, sh) \<in> set ds" by auto
      with assms(2) show ?thesis unfolding decls_of_def by force
    qed
  qed
qed

text \<open>The walk of a list of nodes, each of which keeps the invariant.\<close>

lemma fold_walk_inv:
  assumes step: "\<And>k st. k \<in> set xs \<Longrightarrow> walk_inv t A st \<Longrightarrow>
            walk_inv t A (walk ord k st)
            \<and> set (fst (walk ord k st)) = set (fst st) \<union> ident ` nodes k"
    and "walk_inv t A st"
  shows "walk_inv t A (fold (walk ord) xs st)
         \<and> set (fst (fold (walk ord) xs st)) = set (fst st) \<union> (\<Union>k\<in>set xs. ident ` nodes k)"
  using assms
proof (induction xs arbitrary: st)
  case Nil
  then show ?case by simp
next
  case (Cons x xs)
  from Cons.prems(1)[of x st] Cons.prems(2)
  have x: "walk_inv t A (walk ord x st)"
    "set (fst (walk ord x st)) = set (fst st) \<union> ident ` nodes x" by simp_all
  have "walk_inv t A (fold (walk ord) xs (walk ord x st))
         \<and> set (fst (fold (walk ord) xs (walk ord x st)))
           = set (fst (walk ord x st)) \<union> (\<Union>k\<in>set xs. ident ` nodes k)"
    by (rule Cons.IH) (use Cons.prems(1) x(1) in auto)
  with x(2) show ?case by auto
qed

lemma walk_keeps_inv:
  assumes t: "identity_consistent t" and ord: "traversal_order ord"
  shows "n \<in> nodes t \<Longrightarrow> walk_inv t A st \<Longrightarrow> (\<forall>m\<in>nodes n. ident m \<notin> A) \<Longrightarrow>
         walk_inv t A (walk ord n st)
         \<and> set (fst (walk ord n st)) = set (fst st) \<union> ident ` nodes n"
proof (induction n arbitrary: A st)
  case (INode i ds ks)
  let ?n = "INode i ds ks"
  obtain vs sc where st: "st = (vs, sc)" by (cases st)
  have same: "\<And>m. m \<in> nodes t \<Longrightarrow> ident m = i \<Longrightarrow> m = ?n"
    using t INode.prems(1) unfolding identity_consistent_def by (metis inode.sel(1))
  show ?case
  proof (cases "i \<in> set vs")
    case True
    have "i \<notin> A" using INode.prems(3) self_in_nodes[of ?n] by force
    with INode.prems(1,2) True st have "ident ` nodes ?n \<subseteq> set vs"
      unfolding walk_inv_def closed_under_def by force
    with True INode.prems(2) st show ?thesis by auto
  next
    case False
    let ?st0 = "(vs @ [i], sc @ map (\<lambda>(el, sh). (i, el, sh)) ds)"
    let ?A = "insert i A"
    let ?xs = "filter (\<lambda>k. k \<in> set ks) (ord ks)"
    have xs: "set ?xs = set ks" using ord unfolding traversal_order_def by auto
    have inv0: "walk_inv t ?A ?st0"
    proof -
      have "closed_under t ?A (set (vs @ [i]))"
        using INode.prems(2) st unfolding walk_inv_def closed_under_def by fastforce
      moreover have "set (sc @ map (\<lambda>(el, sh). (i, el, sh)) ds) = decls_of t (set (vs @ [i]))"
        using INode.prems(2) st decls_of_insert[OF t INode.prems(1), of "set vs"]
        unfolding walk_inv_def by auto
      ultimately show ?thesis unfolding walk_inv_def by simp
    qed
    have step: "\<And>k st'. k \<in> set ?xs \<Longrightarrow> walk_inv t ?A st' \<Longrightarrow>
            walk_inv t ?A (walk ord k st')
            \<and> set (fst (walk ord k st')) = set (fst st') \<union> ident ` nodes k"
    proof -
      fix k st' assume k: "k \<in> set ?xs" and inv: "walk_inv t ?A st'"
      from k xs have kks: "k \<in> set ks" by simp
      then have sub: "nodes k \<subseteq> nodes ?n" by auto
      have kt: "k \<in> nodes t"
        using nodes_trans[OF INode.prems(1)] sub self_in_nodes[of k] by blast
      have "\<forall>m\<in>nodes k. ident m \<notin> ?A"
      proof
        fix m assume m: "m \<in> nodes k"
        then have "m \<in> nodes ?n" using sub by blast
        then have notA: "ident m \<notin> A" using INode.prems(3) by blast
        have "ident m \<noteq> i"
        proof
          assume "ident m = i"
          moreover have "m \<in> nodes t" using nodes_trans[OF kt] m by blast
          ultimately have "m = ?n" by (rule same[rotated])
          with m parent_not_below_child[OF kks, of i ds] show False by simp
        qed
        with notA show "ident m \<notin> ?A" by simp
      qed
      from INode.IH[OF kks kt inv this]
      show "walk_inv t ?A (walk ord k st')
            \<and> set (fst (walk ord k st')) = set (fst st') \<union> ident ` nodes k" .
    qed
    from fold_walk_inv[of ?xs t ?A ord ?st0, OF step inv0]
    have res: "walk_inv t ?A (fold (walk ord) ?xs ?st0)"
      "set (fst (fold (walk ord) ?xs ?st0)) = set (fst ?st0) \<union> (\<Union>k\<in>set ?xs. ident ` nodes k)"
      by simp_all
    have w: "walk ord ?n st = fold (walk ord) ?xs ?st0" using False st by simp
    have ids: "set (fst (walk ord ?n st)) = set (fst st) \<union> ident ` nodes ?n"
      unfolding w res(2) xs using st by (auto simp del: nodes.simps simp: ids_node)
    have "closed_under t A (set (fst (walk ord ?n st)))"
      unfolding closed_under_def
    proof (intro ballI impI)
      fix m assume m: "m \<in> nodes t" "ident m \<in> set (fst (walk ord ?n st))"
      show "ident m \<in> A \<or> ident ` nodes m \<subseteq> set (fst (walk ord ?n st))"
      proof (cases "ident m = i")
        case True
        with same[OF m(1)] have "m = ?n" by simp
        with ids show ?thesis by blast
      next
        case False
        with res(1) m w show ?thesis unfolding walk_inv_def closed_under_def by auto
      qed
    qed
    moreover have "set (snd (walk ord ?n st)) = decls_of t (set (fst (walk ord ?n st)))"
      using res(1) w unfolding walk_inv_def by simp
    ultimately show ?thesis using ids unfolding walk_inv_def by simp
  qed
qed

lemma fold_walk_distinct:
  assumes "\<And>k st. k \<in> set xs \<Longrightarrow> distinct (fst st) \<Longrightarrow> distinct (fst (walk ord k st))"
    and "distinct (fst st)"
  shows "distinct (fst (fold (walk ord) xs st))"
  using assms by (induction xs arbitrary: st) auto

lemma walk_distinct:
  fixes st :: "'id list \<times> ('id \<times> 'el \<times> 'sh) list"
  shows "distinct (fst st) \<Longrightarrow> distinct (fst (walk ord n st))"
proof (induction n arbitrary: st)
  case (INode i ds ks)
  obtain vs sc where st: "st = (vs, sc)" by (cases st)
  show ?case
  proof (cases "i \<in> set vs")
    case True
    with INode.prems st show ?thesis by simp
  next
    case False
    have "distinct (fst (fold (walk ord) (filter (\<lambda>k. k \<in> set ks) (ord ks))
        (vs @ [i], sc @ map (\<lambda>(el, sh). (i, el, sh)) ds)))"
    proof (rule fold_walk_distinct)
      fix k and st' :: "'id list \<times> ('id \<times> 'el \<times> 'sh) list"
      assume "k \<in> set (filter (\<lambda>k. k \<in> set ks) (ord ks))" "distinct (fst st')"
      then show "distinct (fst (walk ord k st'))" using INode.IH[of k st'] by simp
    next
      show "distinct (fst (vs @ [i], sc @ map (\<lambda>(el, sh). (i, el, sh)) ds))"
        using INode.prems st False by simp
    qed
    with False st show ?thesis by simp
  qed
qed

lemma walk_root:
  assumes "identity_consistent t" "traversal_order ord"
  shows "set (fst (walk ord t ([], []))) = ident ` nodes t"
    and "set (snd (walk ord t ([], []))) = decls_of t (ident ` nodes t)"
proof -
  have "walk_inv t {} ([], [])" unfolding walk_inv_def closed_under_def decls_of_def by simp
  from walk_keeps_inv[OF assms self_in_nodes this]
  have r: "walk_inv t {} (walk ord t ([], []))"
    "set (fst (walk ord t ([], []))) = ident ` nodes t" by simp_all
  show "set (fst (walk ord t ([], []))) = ident ` nodes t" by (rule r(2))
  from r show "set (snd (walk ord t ([], []))) = decls_of t (ident ` nodes t)"
    unfolding walk_inv_def by simp
qed

lemma conflicts_set:
  "conflicts compatible ds =
     {(i, j). \<exists>el sh sh'. (i, el, sh) \<in> set ds \<and> (j, el, sh') \<in> set ds \<and> \<not> compatible sh sh'}"
  unfolding conflicts_def by force

lemma expand_schema_set:
  "set (snd (walk ord t ([], []))) = set (snd (walk ord' t ([], []))) \<Longrightarrow>
   expand_schema compatible ord t = expand_schema compatible ord' t"
  unfolding expand_schema_def Let_def conflicts_set by simp

lemma count_list_distinct: "distinct xs \<Longrightarrow> x \<in> set xs \<Longrightarrow> count_list xs x = 1"
  by (induction xs) auto

text \<open>
  C8. On a tree in which one identity names one node, and for every order in which the
  subordinate components of a node are taken, the walk of the coordinator (a total
  function: it returns on every tree) visits every node of the tree, and each identity
  once, however many parents reference it; the declarations it collects are those of
  all the nodes of the tree; and the expanded schema, or the consistency error, is the
  same for any two orders of traversal.
\<close>

theorem coordinator_visits_each_node_once:
  assumes "identity_consistent root" and "traversal_order ord" and "traversal_order ord'"
  shows "distinct (visit_order ord root)
       \<and> set (visit_order ord root) = ident ` nodes root
       \<and> (\<forall>m\<in>nodes root. count_list (visit_order ord root) (ident m) = 1)
       \<and> set (snd (walk ord root ([], []))) = decls_of root (ident ` nodes root)
       \<and> expand_schema compatible ord root = expand_schema compatible ord' root"
proof -
  have d: "distinct (visit_order ord root)"
    unfolding visit_order_def by (rule walk_distinct) simp
  have s: "set (visit_order ord root) = ident ` nodes root"
    unfolding visit_order_def by (rule walk_root(1)[OF assms(1,2)])
  have c: "\<forall>m\<in>nodes root. count_list (visit_order ord root) (ident m) = 1"
  proof
    fix m assume "m \<in> nodes root"
    then have "ident m \<in> set (visit_order ord root)" using s by blast
    with d show "count_list (visit_order ord root) (ident m) = 1" by (rule count_list_distinct)
  qed
  have a: "set (snd (walk ord root ([], []))) = decls_of root (ident ` nodes root)"
    by (rule walk_root(2)[OF assms(1,2)])
  have a': "set (snd (walk ord' root ([], []))) = decls_of root (ident ` nodes root)"
    by (rule walk_root(2)[OF assms(1,3)])
  have e: "expand_schema compatible ord root = expand_schema compatible ord' root"
    by (rule expand_schema_set) (simp add: a a')
  from d s c a e show ?thesis by blast
qed

lemma diamond_consistent: "identity_consistent diamond"
  by (simp add: identity_consistent_def diamond_def grandchild_def)

text \<open>
  The diamond: two cases whose default is the same grandchild. Walking the cases in
  either order visits the grandchild once and gives the same schema.
\<close>

theorem coordinator_diamond_witness:
  "visit_order id diamond = [0, 1, 3, 2]
   \<and> visit_order rev diamond = [0, 2, 3, 1]
   \<and> count_list (visit_order id diamond) (ident grandchild) = 1
   \<and> expand_schema (=) rev diamond = expand_schema (=) id diamond
   \<and> expand_schema (=) id diamond
       = ExpandedSchema {(''age'', ''int''), (''name'', ''string''), (''city'', ''string'')}"
proof -
  have o: "traversal_order (id :: (nat, string, string) inode list \<Rightarrow> _)"
    "traversal_order (rev :: (nat, string, string) inode list \<Rightarrow> _)"
    by (simp_all add: traversal_order_def)
  have g: "grandchild \<in> nodes diamond" by (simp add: diamond_def grandchild_def)
  from coordinator_visits_each_node_once[OF diamond_consistent o(1) o(2), of "(=)"]
       coordinator_visits_each_node_once[OF diamond_consistent o(2) o(1), of "(=)"] g
  have "count_list (visit_order id diamond) (ident grandchild) = 1"
    "expand_schema (=) rev diamond = expand_schema (=) id diamond" by auto
  moreover have "visit_order id diamond = [0, 1, 3, 2]"
    by (simp add: visit_order_def diamond_def grandchild_def)
  moreover have "visit_order rev diamond = [0, 2, 3, 1]"
    by (simp add: visit_order_def diamond_def grandchild_def)
  moreover have "expand_schema (=) id diamond
       = ExpandedSchema {(''age'', ''int''), (''name'', ''string''), (''city'', ''string'')}"
    by (simp add: expand_schema_def conflicts_def diamond_def grandchild_def) 
  ultimately show ?thesis by blast
qed


section \<open>Properties of PipelineProgressReporter\<close>

text \<open>
  C9. The callback of the default reporter is \<open>None\<close>; index 0 is a multiple of its
  reporting frequency; \<open>report\<close> logs and then raises \<open>TypeError\<close> at every index and
  record; so \<open>execute_with_reporting\<close> raises \<open>TypeError\<close> on the first record of a
  pipeline that yields one.
\<close>

theorem default_reporter_fails_on_first_record:
  "callback (default_reporter :: ('r, 'v, 'x) PipelineProgressReporter) = None
   \<and> (0 :: int) mod reporting_frequency (default_reporter :: ('r, 'v, 'x) PipelineProgressReporter) = 0
   \<and> report (default_reporter :: ('r, 'v, 'x) PipelineProgressReporter) index rec
       = ([(''Records Processed'', index)], Inl TypeError)
   \<and> execute_with_reporting (default_reporter :: ('r, 'v, 'x) PipelineProgressReporter) (rec # rest)
       = ([(''Records Processed'', 0)], Inl TypeError)"
  by (simp add: default_reporter_def report_def execute_with_reporting_def)

text \<open>
  A pipeline of two records fails at the first; a pipeline without records returns.
\<close>

theorem default_reporter_witness:
  "execute_with_reporting (default_reporter :: (string, unit, unit) PipelineProgressReporter)
      [''first'', ''second'']
     = ([(''Records Processed'', 0)], Inl TypeError)
   \<and> execute_with_reporting (default_reporter :: (string, unit, unit) PipelineProgressReporter) []
     = ([], Inr ())"
  using default_reporter_fails_on_first_record
          [where 'r = string and 'v = unit and 'x = unit and rec = "''first''" and rest = "[''second'']"]
  by (simp add: execute_with_reporting_def)


section \<open>Properties of PipelineDefinition\<close>

lemma map_of_dict_set: "map_of (dict_set d k v) = (map_of d)(k \<mapsto> v)"
  by (induction d) (auto simp: fun_eq_iff)

lemma dict_set_keys: "fst ` set (dict_set d k v) = insert k (fst ` set d)"
  by (simp add: dom_map_of_conv_image_fst[symmetric] map_of_dict_set)

lemma to_file_data_keys:
  "to_file_data stem str_of d verbose = DataDict m \<Longrightarrow>
   fst ` set m \<subseteq> {''path'', ''name'', ''annotations'', ''targets''}"
  by (auto simp: to_file_data_def Let_def dict_set_keys split: if_splits)

lemma to_file_data_path:
  "to_file_data stem str_of d verbose = DataDict m \<Longrightarrow>
   map_of m ''path'' = Some (YStr (str_of (pd_file_path d)))"
  by (auto simp: to_file_data_def Let_def map_of_dict_set split: if_splits)

lemma to_file_data_well_typed:
  "to_file_data stem str_of d verbose = DataDict m \<Longrightarrow>
   (map_of m ''name'' = None \<or> map_of m ''name'' = Some (YStr (pd_name d)))
   \<and> (map_of m ''annotations'' = None \<or> map_of m ''annotations'' = Some (YAnnotations (pd_annotations d)))
   \<and> (map_of m ''targets'' = None \<or> map_of m ''targets'' = Some (YTargets (pd_targets d)))
   \<and> map_of m ''exclude_inherited_targets'' = None"
  by (auto simp: to_file_data_def Let_def map_of_dict_set split: if_splits)

lemma from_file_data_of_str:
  "from_file_data stem mk_path (DataStr s) pa =
     Inr \<lparr>pd_name = stem (mk_path s), pd_file_path = mk_path s, pd_targets = {},
          pd_exclude_inherited_targets = False, pd_annotations = dict_merge pa []\<rparr>"
  by (simp add: from_file_data_def get_default_name_def Let_def)

lemma from_file_data_after_to_file_data:
  "\<exists>d'. from_file_data stem mk_path (to_file_data stem str_of d verbose) pa = Inr d'
        \<and> pd_exclude_inherited_targets d' = False"
proof (cases "to_file_data stem str_of d verbose")
  case (DataStr s)
  then show ?thesis by (simp add: from_file_data_of_str)
next
  case (DataDict m)
  from to_file_data_path[OF DataDict] to_file_data_well_typed[OF DataDict]
  show ?thesis
    unfolding DataDict
    by (auto simp: from_file_data_def Let_def)
qed

text \<open>
  C10. For a definition with the default name and no annotations, \<open>to_file_data\<close>
  without \<open>verbose\<close> is the path string alone, and \<open>from_file_data\<close> of it has no
  targets and does not exclude inherited targets, whatever the definition had. In every
  mode a dictionary returned by \<open>to_file_data\<close> has no key
  \<open>exclude_inherited_targets\<close>, and \<open>from_file_data\<close> of the output does not exclude
  inherited targets.
\<close>

theorem to_file_data_omits_targets_and_exclusion:
  "(pd_name d = stem (pd_file_path d) \<and> pd_annotations d = []
      \<longrightarrow> to_file_data stem str_of d False = DataStr (str_of (pd_file_path d))
        \<and> (\<exists>d'. from_file_data stem mk_path (to_file_data stem str_of d False) pa = Inr d'
                \<and> pd_targets d' = {} \<and> pd_exclude_inherited_targets d' = False))
   \<and> (\<forall>m. to_file_data stem str_of d verbose = DataDict m
          \<longrightarrow> ''exclude_inherited_targets'' \<notin> fst ` set m)
   \<and> (\<exists>d'. from_file_data stem mk_path (to_file_data stem str_of d verbose) pa = Inr d'
          \<and> pd_exclude_inherited_targets d' = False)"
proof (intro conjI impI allI)
  assume h: "pd_name d = stem (pd_file_path d) \<and> pd_annotations d = []"
  then show s: "to_file_data stem str_of d False = DataStr (str_of (pd_file_path d))"
    by (simp add: to_file_data_def)
  show "\<exists>d'. from_file_data stem mk_path (to_file_data stem str_of d False) pa = Inr d'
                \<and> pd_targets d' = {} \<and> pd_exclude_inherited_targets d' = False"
    unfolding s by (simp add: from_file_data_of_str)
next
  fix m assume "to_file_data stem str_of d verbose = DataDict m"
  from to_file_data_keys[OF this] show "''exclude_inherited_targets'' \<notin> fst ` set m" by auto
next
  show "\<exists>d'. from_file_data stem mk_path (to_file_data stem str_of d verbose) pa = Inr d'
          \<and> pd_exclude_inherited_targets d' = False"
    by (rule from_file_data_after_to_file_data)
qed

text \<open>
  A definition with target \<open>prod\<close> that excludes inherited targets: the short form
  loses both, the verbose form keeps the target and loses the exclusion.
\<close>

theorem to_file_data_witness:
  "to_file_data example_stem id example_definition False = DataStr ''load.yaml''
   \<and> from_file_data example_stem id (to_file_data example_stem id example_definition False) []
     = (Inr \<lparr>pd_name = ''load'', pd_file_path = ''load.yaml'', pd_targets = {},
          pd_exclude_inherited_targets = False, pd_annotations = []\<rparr>
        :: (unit, unit) py_error + (string, string) PipelineDefinition)
   \<and> to_file_data example_stem id example_definition True
     = DataDict [(''path'', YStr ''load.yaml''), (''name'', YStr ''load''),
                 (''annotations'', YAnnotations []), (''targets'', YTargets {''prod''})]
   \<and> from_file_data example_stem id (to_file_data example_stem id example_definition True) []
     = (Inr \<lparr>pd_name = ''load'', pd_file_path = ''load.yaml'', pd_targets = {''prod''},
          pd_exclude_inherited_targets = False, pd_annotations = []\<rparr>
        :: (unit, unit) py_error + (string, string) PipelineDefinition)
   \<and> pd_targets example_definition = {''prod''}
   \<and> pd_exclude_inherited_targets example_definition"
  using to_file_data_omits_targets_and_exclusion
          [of example_definition example_stem id id "[]" True]
  by (simp add: to_file_data_def from_file_data_def example_stem_def example_definition_def
        get_default_name_def dict_merge_def)


end
